theory Spec2Isabelle
  imports Main
begin

section \<open>The streaming response transformer of \<open>helicone-language-model.ts\<close>\<close>

text \<open>
  This theory embeds the body of \<open>doStream\<close>'s \<open>ReadableStream.start\<close> callback
  (lines 330-545 of \<open>src/helicone-language-model.ts\<close>): the loop that reads chunks of
  a server-sent-event response, decodes each \<open>data:\<close> line and enqueues
  \<open>LanguageModelV2StreamPart\<close> events.

  Conventions of the embedding.
  \<^item> A JavaScript string is a \<open>string\<close>; a \<open>char\<close> stands for one code unit below 256.
  \<^item> A property that may be \<open>undefined\<close> or \<open>null\<close> is an \<open>option\<close>.  The source tests
    such properties for truthiness; for a string that is "present and not empty".
  \<^item> \<open>JSON.parse\<close> and \<open>mapHeliconeFinishReason\<close> (imported from \<open>./helicone-error\<close>,
    which is not among the sources) are parameters \<open>parse\<close> and \<open>mapReason\<close> of the model.
    \<open>parse\<close> returns \<open>None\<close> where \<open>JSON.parse\<close> throws, and otherwise the payload read at
    the shape the source expects of an OpenAI chat-completion chunk (the record \<open>frame\<close>).
    A payload that is valid JSON of another shape, on which a property access of lines
    413-532 would throw into the same \<open>catch\<close>, is not a value of that type.
  \<^item> \<open>controller.enqueue\<close> appends to the list of emitted events; the mutable locals
    of \<open>doStream\<close> are the fields of the record \<open>session\<close>.
\<close>

subsection \<open>Events (\<open>LanguageModelV2StreamPart\<close>)\<close>

record lm_usage =
  inputTokens :: int
  outputTokens :: int
  totalTokens :: int

datatype event =
    TextStart string
  | TextDelta string string
  | TextEnd string
  | ToolInputStart string string
  | ToolInputDelta string string
  | ToolInputEnd string
  | ToolCall string string string
  | Finish lm_usage string

text \<open>
  Argument order: \<open>TextDelta id delta\<close>, \<open>ToolInputStart id toolName\<close>,
  \<open>ToolInputDelta id delta\<close>, \<open>ToolCall toolCallId toolName input\<close>,
  \<open>Finish usage finishReason\<close>.
\<close>

subsection \<open>Decoded frames (the value of \<open>JSON.parse(data)\<close>)\<close>

record usage_obj =
  prompt_tokens :: "int option"
  completion_tokens :: "int option"
  total_tokens :: "int option"

record function_obj =
  fn_name :: "string option"
  fn_arguments :: "string option"

record tool_fragment =
  frag_index :: "int option"
  frag_id :: "string option"
  frag_function :: "function_obj option"

record delta_obj =
  content :: "string option"
  tool_calls :: "tool_fragment list option"

record choice_obj =
  delta :: "delta_obj option"
  finish_reason :: "string option"

record frame =
  frame_usage :: "usage_obj option"
  choices :: "choice_obj list option"

subsection \<open>Session state (the locals of \<open>doStream\<close>, lines 330-346)\<close>

record tracked_call =
  tc_id :: string
  tc_name :: string
  tc_arguments :: string
  tc_completed :: bool

text \<open>
  \<open>toolCalls\<close> is a JavaScript \<open>Map\<close>, iterated in insertion order: an association list
  to which a new key is appended.  \<open>textStarted\<close> and \<open>textEnded\<close> are \<open>Set\<close>s, iterated
  in insertion order: lists without repetition.
\<close>

record session =
  usage :: lm_usage
  actualFinishReason :: string
  toolCalls :: "(string \<times> tracked_call) list"
  indexToId :: "int \<Rightarrow> string option"
  textStarted :: "string list"
  textEnded :: "string list"

definition initial :: session where
  "initial = \<lparr> usage = \<lparr> inputTokens = 0, outputTokens = 0, totalTokens = 0 \<rparr>,
               actualFinishReason = ''stop'',
               toolCalls = [],
               indexToId = (\<lambda>_. None),
               textStarted = [],
               textEnded = [] \<rparr>"

subsection \<open>JavaScript helpers\<close>

text \<open>Truthiness of a string-valued property: present and not the empty string.\<close>

fun truthy :: "string option \<Rightarrow> bool" where
  "truthy None = False"
| "truthy (Some s) = (s \<noteq> [])"

text \<open>\<open>x || 0\<close> on a number-valued property.\<close>

fun or0 :: "int option \<Rightarrow> int" where
  "or0 None = 0"
| "or0 (Some n) = n"

text \<open>\<open>Set.prototype.add\<close>.\<close>

definition set_add :: "string list \<Rightarrow> string \<Rightarrow> string list" where
  "set_add xs x = (if x \<in> set xs then xs else xs @ [x])"

text \<open>\<open>Map.prototype.set\<close>: an existing key keeps its place, a new one goes last.\<close>

fun map_set :: "(string \<times> 'v) list \<Rightarrow> string \<Rightarrow> 'v \<Rightarrow> (string \<times> 'v) list" where
  "map_set [] k v = [(k, v)]"
| "map_set ((k', v') # rest) k v =
     (if k' = k then (k, v) # rest else (k', v') # map_set rest k v)"

text \<open>\<open>chunk.split('\n')\<close>.\<close>

fun split_lines :: "string \<Rightarrow> string list" where
  "split_lines [] = [[]]"
| "split_lines (c # cs) =
     (if c = CHR 0x0A then [] # split_lines cs
      else (case split_lines cs of
              [] \<Rightarrow> [[c]]
            | l # ls \<Rightarrow> (c # l) # ls))"

text \<open>\<open>String.prototype.trim\<close>, on the white space and line terminators below 256.\<close>

definition is_space :: "char \<Rightarrow> bool" where
  "is_space c = (c \<in> set [CHR 0x09, CHR 0x0A, CHR 0x0B, CHR 0x0C, CHR 0x0D, CHR 0x20, CHR 0xA0])"

definition trim :: "string \<Rightarrow> string" where
  "trim s = rev (dropWhile is_space (rev (dropWhile is_space s)))"

subsection \<open>The flush of lines 358-385 and 427-454\<close>

text \<open>
  The source carries the two loops twice, word for word: once where \<open>reader.read()\<close>
  reports \<open>done\<close>, once where a choice has a \<open>finish_reason\<close>.
\<close>

fun completeToolCalls :: "(string \<times> tracked_call) list \<Rightarrow> (string \<times> tracked_call) list \<times> event list" where
  "completeToolCalls [] = ([], [])"
| "completeToolCalls ((k, toolCall) # rest) =
     (let r = completeToolCalls rest in
      if \<not> tc_completed toolCall
      then ((k, toolCall \<lparr> tc_completed := True \<rparr>) # fst r,
            ToolInputEnd (tc_id toolCall)
            # ToolCall (tc_id toolCall) (tc_name toolCall) (tc_arguments toolCall)
            # snd r)
      else ((k, toolCall) # fst r, snd r))"

fun completeTextParts :: "string list \<Rightarrow> string list \<Rightarrow> string list \<times> event list" where
  "completeTextParts [] ended = (ended, [])"
| "completeTextParts (i # rest) ended =
     (if i \<notin> set ended
      then (let r = completeTextParts rest (set_add ended i) in (fst r, TextEnd i # snd r))
      else completeTextParts rest ended)"

definition flush :: "session \<Rightarrow> session \<times> event list" where
  "flush st =
     (let tcs = completeToolCalls (toolCalls st);
          txt = completeTextParts (textStarted st) (textEnded st)
      in (st \<lparr> toolCalls := fst tcs, textEnded := fst txt \<rparr>, snd tcs @ snd txt))"

subsection \<open>One tool-call fragment (the loop body of lines 480-533)\<close>

text \<open>Lines 481-494: the id a fragment is about, with the updated \<open>indexToId\<close>.\<close>

definition resolveToolId :: "(int \<Rightarrow> string option) \<Rightarrow> tool_fragment \<Rightarrow> (string \<times> (int \<Rightarrow> string option)) option" where
  "resolveToolId m toolCall =
     (if truthy (frag_id toolCall)
      then (case frag_id toolCall of
              None \<Rightarrow> None
            | Some toolId \<Rightarrow>
                Some (toolId, case frag_index toolCall of
                                None \<Rightarrow> m
                              | Some i \<Rightarrow> m (i := Some toolId)))
      else (case frag_index toolCall of
              None \<Rightarrow> None
            | Some i \<Rightarrow> (case m i of
                          None \<Rightarrow> None
                        | Some toolId \<Rightarrow> Some (toolId, m))))"

text \<open>Lines 497-506: get or create the tracked call.\<close>

definition newCall :: "string \<Rightarrow> tracked_call" where
  "newCall toolId = \<lparr> tc_id = toolId, tc_name = [], tc_arguments = ''{}'', tc_completed = False \<rparr>"

definition getOrCreate :: "(string \<times> tracked_call) list \<Rightarrow> string \<Rightarrow> tracked_call" where
  "getOrCreate calls toolId =
     (case map_of calls toolId of
        None \<Rightarrow> newCall toolId
      | Some trackedCall \<Rightarrow> trackedCall)"

text \<open>\<open>toolCall.function?.name\<close> and \<open>toolCall.function?.arguments\<close>.\<close>

definition fragName :: "tool_fragment \<Rightarrow> string option" where
  "fragName toolCall = (case frag_function toolCall of None \<Rightarrow> None | Some f \<Rightarrow> fn_name f)"

definition fragArguments :: "tool_fragment \<Rightarrow> string option" where
  "fragArguments toolCall = (case frag_function toolCall of None \<Rightarrow> None | Some f \<Rightarrow> fn_arguments f)"

text \<open>Lines 509-516: the name, and \<open>tool-input-start\<close>.\<close>

definition applyName :: "string \<Rightarrow> tool_fragment \<Rightarrow> tracked_call \<Rightarrow> tracked_call \<times> event list" where
  "applyName toolId toolCall trackedCall =
     (case fragName toolCall of
        None \<Rightarrow> (trackedCall, [])
      | Some n \<Rightarrow>
          if n \<noteq> [] \<and> tc_name trackedCall = []
          then (trackedCall \<lparr> tc_name := n \<rparr>, [ToolInputStart toolId n])
          else (trackedCall, []))"

text \<open>Lines 519-532: the arguments, and \<open>tool-input-delta\<close>.\<close>

definition applyArguments :: "string \<Rightarrow> tool_fragment \<Rightarrow> tracked_call \<Rightarrow> tracked_call \<times> event list" where
  "applyArguments toolId toolCall trackedCall =
     (case fragArguments toolCall of
        None \<Rightarrow> (trackedCall, [])
      | Some a \<Rightarrow>
          if a \<noteq> []
          then (trackedCall \<lparr> tc_arguments :=
                   (if tc_arguments trackedCall = ''{}'' then a else tc_arguments trackedCall @ a) \<rparr>,
                [ToolInputDelta toolId a])
          else (trackedCall, []))"

definition processToolCall :: "session \<Rightarrow> tool_fragment \<Rightarrow> session \<times> event list" where
  "processToolCall st toolCall =
     (case resolveToolId (indexToId st) toolCall of
        None \<Rightarrow> (st, [])
      | Some (toolId, m) \<Rightarrow>
          (let named = applyName toolId toolCall (getOrCreate (toolCalls st) toolId);
               fed = applyArguments toolId toolCall (fst named)
           in (st \<lparr> indexToId := m, toolCalls := map_set (toolCalls st) toolId (fst fed) \<rparr>,
               snd named @ snd fed)))"

fun processToolCalls :: "session \<Rightarrow> tool_fragment list \<Rightarrow> session \<times> event list" where
  "processToolCalls st [] = (st, [])"
| "processToolCalls st (toolCall # rest) =
     (let r = processToolCall st toolCall;
          r' = processToolCalls (fst r) rest
      in (fst r', snd r @ snd r'))"

subsection \<open>One decoded frame (lines 412-534)\<close>

text \<open>Lines 413-417: all three fields are assigned from the frame's usage object.\<close>

definition readUsage :: "usage_obj \<Rightarrow> lm_usage" where
  "readUsage u = \<lparr> inputTokens = or0 (prompt_tokens u),
                   outputTokens = or0 (completion_tokens u),
                   totalTokens = or0 (total_tokens u) \<rparr>"

definition updateUsage :: "session \<Rightarrow> frame \<Rightarrow> session" where
  "updateUsage st parsed =
     (case frame_usage parsed of
        None \<Rightarrow> st
      | Some u \<Rightarrow> st \<lparr> usage := readUsage u \<rparr>)"

text \<open>Lines 423-455.\<close>

definition processFinish :: "(string \<Rightarrow> string) \<Rightarrow> session \<Rightarrow> choice_obj \<Rightarrow> session \<times> event list" where
  "processFinish mapReason st choice =
     (case finish_reason choice of
        None \<Rightarrow> (st, [])
      | Some r \<Rightarrow>
          if r \<noteq> [] then flush (st \<lparr> actualFinishReason := mapReason r \<rparr>) else (st, []))"

text \<open>Lines 461-476.\<close>

definition processContent :: "session \<Rightarrow> delta_obj \<Rightarrow> session \<times> event list" where
  "processContent st d =
     (case content d of
        None \<Rightarrow> (st, [])
      | Some t \<Rightarrow>
          if t \<noteq> []
          then (if ''text-0'' \<notin> set (textStarted st)
                then (st \<lparr> textStarted := set_add (textStarted st) ''text-0'' \<rparr>,
                      [TextStart ''text-0'', TextDelta ''text-0'' t])
                else (st, [TextDelta ''text-0'' t]))
          else (st, []))"

text \<open>Lines 457-534.\<close>

definition processDelta :: "session \<Rightarrow> delta_obj \<Rightarrow> session \<times> event list" where
  "processDelta st d =
     (let r = processContent st d;
          r' = (case tool_calls d of
                  None \<Rightarrow> (fst r, [])
                | Some tcs \<Rightarrow> processToolCalls (fst r) tcs)
      in (fst r', snd r @ snd r'))"

definition processFrame :: "(string \<Rightarrow> string) \<Rightarrow> session \<Rightarrow> frame \<Rightarrow> session \<times> event list" where
  "processFrame mapReason st parsed =
     (let st1 = updateUsage st parsed in
      case choices parsed of
        None \<Rightarrow> (st1, [])
      | Some [] \<Rightarrow> (st1, [])
      | Some (choice # _) \<Rightarrow>
          (let r = processFinish mapReason st1 choice in
           case delta choice of
             None \<Rightarrow> r
           | Some d \<Rightarrow> (let r' = processDelta (fst r) d in (fst r', snd r @ snd r'))))"

subsection \<open>Lines, chunks and the read loop (lines 353-544)\<close>

text \<open>Lines 400-538: one line of a chunk.  A payload that does not parse is skipped.\<close>

definition processLine :: "(string \<Rightarrow> frame option) \<Rightarrow> (string \<Rightarrow> string) \<Rightarrow> session \<Rightarrow> string \<Rightarrow> session \<times> event list" where
  "processLine parse mapReason st line =
     (let trimmed = trim line in
      if take 6 trimmed \<noteq> ''data: '' then (st, [])
      else (let data = drop 6 trimmed in
            if data = ''[DONE]'' then (st, [])
            else (case parse data of
                    None \<Rightarrow> (st, [])
                  | Some parsed \<Rightarrow> processFrame mapReason st parsed)))"

fun processLines :: "(string \<Rightarrow> frame option) \<Rightarrow> (string \<Rightarrow> string) \<Rightarrow> session \<Rightarrow> string list \<Rightarrow> session \<times> event list" where
  "processLines parse mapReason st [] = (st, [])"
| "processLines parse mapReason st (line # rest) =
     (let r = processLine parse mapReason st line;
          r' = processLines parse mapReason (fst r) rest
      in (fst r', snd r @ snd r'))"

definition processChunk :: "(string \<Rightarrow> frame option) \<Rightarrow> (string \<Rightarrow> string) \<Rightarrow> session \<Rightarrow> string \<Rightarrow> session \<times> event list" where
  "processChunk parse mapReason st chunk = processLines parse mapReason st (split_lines chunk)"

text \<open>
  A \<open>reader.read()\<close> either yields a chunk (already decoded by \<open>textDecoder.decode\<close>) or
  rejects; the end of the list is the read that reports \<open>done\<close>.  A response body that
  never ends is not a value of this type.
\<close>

datatype read_result = Chunk string | ReadError

datatype outcome = Closed | Errored

text \<open>Lines 356-394: the flush at \<open>done\<close>, the \<open>finish\<close> event, \<open>controller.close()\<close>.\<close>

definition finishStream :: "session \<Rightarrow> session \<times> event list" where
  "finishStream st =
     (let r = flush st
      in (fst r, snd r @ [Finish (usage (fst r)) (actualFinishReason (fst r))]))"

fun pump :: "(string \<Rightarrow> frame option) \<Rightarrow> (string \<Rightarrow> string) \<Rightarrow> session \<Rightarrow> read_result list \<Rightarrow> session \<times> event list \<times> outcome" where
  "pump parse mapReason st [] = (let r = finishStream st in (fst r, snd r, Closed))"
| "pump parse mapReason st (ReadError # _) = (st, [], Errored)"
| "pump parse mapReason st (Chunk chunk # rest) =
     (let r = processChunk parse mapReason st chunk;
          r' = pump parse mapReason (fst r) rest
      in (fst r', snd r @ fst (snd r'), snd (snd r')))"

text \<open>The events a consumer of \<open>processedStream\<close> reads, and how the stream ends.\<close>

definition doStream :: "(string \<Rightarrow> frame option) \<Rightarrow> (string \<Rightarrow> string) \<Rightarrow> read_result list \<Rightarrow> event list \<times> outcome" where
  "doStream parse mapReason reads = snd (pump parse mapReason initial reads)"

section \<open>Vocabulary of the claims\<close>

subsection \<open>The decoded frames of a stream\<close>

text \<open>
  The frames that \<open>processLine\<close> hands to \<open>processFrame\<close>, in order: the payload of each
  \<open>data:\<close> line other than \<open>[DONE]\<close> that \<open>parse\<close> accepts.
\<close>

definition lineFrames :: "(string \<Rightarrow> frame option) \<Rightarrow> string \<Rightarrow> frame list" where
  "lineFrames parse line =
     (if take 6 (trim line) \<noteq> ''data: '' then []
      else if drop 6 (trim line) = ''[DONE]'' then []
      else (case parse (drop 6 (trim line)) of None \<Rightarrow> [] | Some parsed \<Rightarrow> [parsed]))"

definition chunkFrames :: "(string \<Rightarrow> frame option) \<Rightarrow> string \<Rightarrow> frame list" where
  "chunkFrames parse chunk = concat (map (lineFrames parse) (split_lines chunk))"

fun readFrames :: "(string \<Rightarrow> frame option) \<Rightarrow> read_result list \<Rightarrow> frame list" where
  "readFrames parse [] = []"
| "readFrames parse (ReadError # _) = []"
| "readFrames parse (Chunk c # rest) = chunkFrames parse c @ readFrames parse rest"

text \<open>A stream ends normally when no read rejects before the one that reports \<open>done\<close>.\<close>

fun endsNormally :: "read_result list \<Rightarrow> bool" where
  "endsNormally [] = True"
| "endsNormally (ReadError # _) = False"
| "endsNormally (Chunk c # rest) = endsNormally rest"

text \<open>\<open>parsed.choices?.[0]\<close>.\<close>

definition firstChoice :: "frame \<Rightarrow> choice_obj option" where
  "firstChoice parsed =
     (case choices parsed of None \<Rightarrow> None | Some [] \<Rightarrow> None | Some (c # _) \<Rightarrow> Some c)"

text \<open>A frame carries a finish signal when line 423 finds \<open>choice.finish_reason\<close> truthy.\<close>

definition carriesFinish :: "frame \<Rightarrow> bool" where
  "carriesFinish parsed =
     (case firstChoice parsed of None \<Rightarrow> False | Some c \<Rightarrow> truthy (finish_reason c))"

subsection \<open>Frames as sequences of atomic actions\<close>

text \<open>
  \<open>processFrame\<close> does up to four things in a fixed order: it overwrites the usage, it
  handles a finish signal, it emits text, and it handles the tool-call fragments one by
  one.  The proofs work on this flattened view; \<open>processFrame_run\<close> below shows that it
  is the same computation.
\<close>

datatype action = SetUsage usage_obj | Signal string | Content string | Fragment tool_fragment

fun step :: "(string \<Rightarrow> string) \<Rightarrow> session \<Rightarrow> action \<Rightarrow> session \<times> event list" where
  "step mapReason st (SetUsage u) = (st \<lparr> usage := readUsage u \<rparr>, [])"
| "step mapReason st (Signal r) = flush (st \<lparr> actualFinishReason := mapReason r \<rparr>)"
| "step mapReason st (Content t) =
     (if ''text-0'' \<notin> set (textStarted st)
      then (st \<lparr> textStarted := set_add (textStarted st) ''text-0'' \<rparr>,
            [TextStart ''text-0'', TextDelta ''text-0'' t])
      else (st, [TextDelta ''text-0'' t]))"
| "step mapReason st (Fragment f) = processToolCall st f"

fun run :: "(string \<Rightarrow> string) \<Rightarrow> session \<Rightarrow> action list \<Rightarrow> session \<times> event list" where
  "run mapReason st [] = (st, [])"
| "run mapReason st (a # as) =
     (let r = step mapReason st a; r' = run mapReason (fst r) as in (fst r', snd r @ snd r'))"

definition usageActions :: "frame \<Rightarrow> action list" where
  "usageActions parsed = (case frame_usage parsed of None \<Rightarrow> [] | Some u \<Rightarrow> [SetUsage u])"

definition finishActions :: "choice_obj \<Rightarrow> action list" where
  "finishActions c =
     (case finish_reason c of None \<Rightarrow> [] | Some r \<Rightarrow> if r \<noteq> [] then [Signal r] else [])"

definition contentActions :: "delta_obj \<Rightarrow> action list" where
  "contentActions d =
     (case content d of None \<Rightarrow> [] | Some t \<Rightarrow> if t \<noteq> [] then [Content t] else [])"

definition fragmentActions :: "delta_obj \<Rightarrow> action list" where
  "fragmentActions d = (case tool_calls d of None \<Rightarrow> [] | Some tcs \<Rightarrow> map Fragment tcs)"

definition deltaActions :: "choice_obj \<Rightarrow> action list" where
  "deltaActions c = (case delta c of None \<Rightarrow> [] | Some d \<Rightarrow> contentActions d @ fragmentActions d)"

definition frameActions :: "frame \<Rightarrow> action list" where
  "frameActions parsed =
     usageActions parsed @
     (case firstChoice parsed of None \<Rightarrow> [] | Some c \<Rightarrow> finishActions c @ deltaActions c)"

definition runFrames :: "(string \<Rightarrow> string) \<Rightarrow> session \<Rightarrow> frame list \<Rightarrow> session \<times> event list" where
  "runFrames mapReason st fs = run mapReason st (concat (map frameActions fs))"

fun isSignal :: "action \<Rightarrow> bool" where
  "isSignal (Signal r) = True"
| "isSignal _ = False"

fun isSetUsage :: "action \<Rightarrow> bool" where
  "isSetUsage (SetUsage u) = True"
| "isSetUsage _ = False"

fun actionUsages :: "action list \<Rightarrow> usage_obj list" where
  "actionUsages [] = []"
| "actionUsages (SetUsage u # as) = u # actionUsages as"
| "actionUsages (_ # as) = actionUsages as"

text \<open>The usage objects a sequence of frames carries, in order.\<close>

fun frameUsages :: "frame list \<Rightarrow> usage_obj list" where
  "frameUsages [] = []"
| "frameUsages (f # fs) =
     (case frame_usage f of None \<Rightarrow> frameUsages fs | Some u \<Rightarrow> u # frameUsages fs)"

text \<open>
  A line whose payload is not valid JSON: it passes the tests of lines 401 and 404, and
  \<open>JSON.parse\<close> throws.
\<close>

definition malformedLine :: "(string \<Rightarrow> frame option) \<Rightarrow> string \<Rightarrow> bool" where
  "malformedLine parse line =
     (take 6 (trim line) = ''data: '' \<and> drop 6 (trim line) \<noteq> ''[DONE]''
      \<and> parse (drop 6 (trim line)) = None)"

text \<open>A chunk that carries malformed payloads and no other \<open>data:\<close> line.\<close>

definition malformedChunk :: "(string \<Rightarrow> frame option) \<Rightarrow> string \<Rightarrow> bool" where
  "malformedChunk parse chunk =
     ((\<exists>l\<in>set (split_lines chunk). malformedLine parse l)
      \<and> (\<forall>l\<in>set (split_lines chunk). malformedLine parse l \<or> take 6 (trim l) \<noteq> ''data: ''))"

subsection \<open>Kinds of events\<close>

fun isFinish :: "event \<Rightarrow> bool" where
  "isFinish (Finish u r) = True"
| "isFinish _ = False"

fun isStart :: "string \<Rightarrow> event \<Rightarrow> bool" where
  "isStart i (ToolInputStart k n) = (k = i)"
| "isStart i _ = False"

fun isDelta :: "string \<Rightarrow> event \<Rightarrow> bool" where
  "isDelta i (ToolInputDelta k a) = (k = i)"
| "isDelta i _ = False"

fun isEnd :: "string \<Rightarrow> event \<Rightarrow> bool" where
  "isEnd i (ToolInputEnd k) = (k = i)"
| "isEnd i _ = False"

fun isCall :: "string \<Rightarrow> event \<Rightarrow> bool" where
  "isCall i (ToolCall k n a) = (k = i)"
| "isCall i _ = False"

fun isTextStart :: "string \<Rightarrow> event \<Rightarrow> bool" where
  "isTextStart i (TextStart k) = (k = i)"
| "isTextStart i _ = False"

fun isTextDelta :: "string \<Rightarrow> event \<Rightarrow> bool" where
  "isTextDelta i (TextDelta k t) = (k = i)"
| "isTextDelta i _ = False"

fun isTextEnd :: "string \<Rightarrow> event \<Rightarrow> bool" where
  "isTextEnd i (TextEnd k) = (k = i)"
| "isTextEnd i _ = False"

text \<open>The tool-call id an event carries, if it is one of the four tool-call events.\<close>

fun eventCall :: "event \<Rightarrow> string option" where
  "eventCall (ToolInputStart k n) = Some k"
| "eventCall (ToolInputDelta k a) = Some k"
| "eventCall (ToolInputEnd k) = Some k"
| "eventCall (ToolCall k n a) = Some k"
| "eventCall _ = None"

text \<open>How often an event of some kind occurs.\<close>

definition occurrences :: "(event \<Rightarrow> bool) \<Rightarrow> event list \<Rightarrow> nat" where
  "occurrences P es = length (filter P es)"

fun isTextPart :: "string \<Rightarrow> event \<Rightarrow> bool" where
  "isTextPart i e = (isTextDelta i e \<or> isTextEnd i e)"

fun isCompletion :: "string \<Rightarrow> event \<Rightarrow> bool" where
  "isCompletion i e = (isEnd i e \<or> isCall i e)"

fun isToolPart :: "string \<Rightarrow> event \<Rightarrow> bool" where
  "isToolPart i e = (isDelta i e \<or> isEnd i e \<or> isCall i e)"

text \<open>Every event of kind \<open>P\<close> stands before every event of kind \<open>Q\<close>.\<close>

definition precedes :: "(event \<Rightarrow> bool) \<Rightarrow> (event \<Rightarrow> bool) \<Rightarrow> event list \<Rightarrow> bool" where
  "precedes P Q es =
     (\<forall>j k. j < length es \<and> k < length es \<and> P (es ! j) \<and> Q (es ! k) \<longrightarrow> j < k)"

text \<open>Moreover, where there is an event of kind \<open>Q\<close> there is one of kind \<open>P\<close>.\<close>

definition leads :: "(event \<Rightarrow> bool) \<Rightarrow> (event \<Rightarrow> bool) \<Rightarrow> event list \<Rightarrow> bool" where
  "leads P Q es = (precedes P Q es \<and> ((\<exists>e\<in>set es. Q e) \<longrightarrow> (\<exists>e\<in>set es. P e)))"

text \<open>Two events stand next to each other, in this order.\<close>

definition adjacent :: "event \<Rightarrow> event \<Rightarrow> event list \<Rightarrow> bool" where
  "adjacent x y es = (\<exists>es1 es2. es = es1 @ x # y # es2)"

text \<open>Every \<open>tool-call\<close> event comes right after the \<open>tool-input-end\<close> of its id.\<close>

definition paired :: "event list \<Rightarrow> bool" where
  "paired es = (\<forall>i n a. ToolCall i n a \<in> set es \<longrightarrow> adjacent (ToolInputEnd i) (ToolCall i n a) es)"

subsection \<open>Well-formed sessions\<close>

text \<open>
  What a JavaScript \<open>Map\<close> and \<open>Set\<close> guarantee and the association lists do not: keys
  occur once.  Line 500 stores every tracked call under its own \<open>id\<close>.
\<close>

definition wfCalls :: "(string \<times> tracked_call) list \<Rightarrow> bool" where
  "wfCalls cs = (distinct (map fst cs) \<and> (\<forall>(k, tc)\<in>set cs. tc_id tc = k))"

definition wfSession :: "session \<Rightarrow> bool" where
  "wfSession st = (wfCalls (toolCalls st) \<and> distinct (textStarted st))"

definition completedIn :: "session \<Rightarrow> string \<Rightarrow> bool" where
  "completedIn st i = (case map_of (toolCalls st) i of None \<Rightarrow> False | Some tc \<Rightarrow> tc_completed tc)"

text \<open>
  The bookkeeping behind the flush: \<open>tool-input-end\<close> and \<open>tool-call\<close> have been
  emitted for exactly the calls marked completed, \<open>text-end\<close> for exactly the ids in
  \<open>textEnded\<close>, once each.
\<close>

definition counted :: "session \<Rightarrow> event list \<Rightarrow> bool" where
  "counted st es =
     (\<forall>i. occurrences (isEnd i) es = (if completedIn st i then 1 else 0)
        \<and> occurrences (isCall i) es = (if completedIn st i then 1 else 0)
        \<and> occurrences (isTextEnd i) es = (if i \<in> set (textEnded st) then 1 else 0))"

subsection \<open>What a fragment does to the call it is resolved to\<close>

text \<open>The tracked call of \<open>i\<close> after lines 497-532 have run for fragment \<open>f\<close>.\<close>

definition fed :: "session \<Rightarrow> tool_fragment \<Rightarrow> string \<Rightarrow> tracked_call" where
  "fed st f i = fst (applyArguments i f (fst (applyName i f (getOrCreate (toolCalls st) i))))"

text \<open>
  Fragment \<open>f\<close> is handled as a fragment of call \<open>i\<close>: afterwards \<open>i\<close> is tracked, every
  event the fragment produced carries \<open>i\<close>, and no other tracked call has changed.
\<close>

definition attributed :: "session \<Rightarrow> tool_fragment \<Rightarrow> string \<Rightarrow> bool" where
  "attributed st f i =
     (i \<in> fst ` set (toolCalls (fst (processToolCall st f)))
      \<and> (\<forall>e\<in>set (snd (processToolCall st f)). eventCall e = Some i)
      \<and> (\<forall>k. k \<noteq> i \<longrightarrow>
            map_of (toolCalls (fst (processToolCall st f))) k = map_of (toolCalls st) k))"

subsection \<open>The fragments delivered for a tool-call id\<close>

text \<open>The tool-call fragments of a stream, in arrival order (lines 419, 457, 479-480).\<close>

definition frameFragments :: "frame \<Rightarrow> tool_fragment list" where
  "frameFragments parsed =
     (case firstChoice parsed of
        None \<Rightarrow> []
      | Some c \<Rightarrow> (case delta c of
                    None \<Rightarrow> []
                  | Some d \<Rightarrow> (case tool_calls d of None \<Rightarrow> [] | Some tcs \<Rightarrow> tcs)))"

definition streamFragments :: "frame list \<Rightarrow> tool_fragment list" where
  "streamFragments fs = concat (map frameFragments fs)"

fun actionFragments :: "action list \<Rightarrow> tool_fragment list" where
  "actionFragments [] = []"
| "actionFragments (Fragment f # as) = f # actionFragments as"
| "actionFragments (_ # as) = actionFragments as"

text \<open>
  Each fragment of a sequence paired with the id it is resolved to by lines 481-494,
  starting from the index map \<open>m\<close>; fragments that resolve to no id are left out.
\<close>

fun delivered :: "(int \<Rightarrow> string option) \<Rightarrow> tool_fragment list \<Rightarrow> (string \<times> tool_fragment) list" where
  "delivered m [] = []"
| "delivered m (f # fs) =
     (case resolveToolId m f of
        None \<Rightarrow> delivered m fs
      | Some (i, m') \<Rightarrow> (i, f) # delivered m' fs)"

fun indexAfter :: "(int \<Rightarrow> string option) \<Rightarrow> tool_fragment list \<Rightarrow> (int \<Rightarrow> string option)" where
  "indexAfter m [] = m"
| "indexAfter m (f # fs) =
     indexAfter (case resolveToolId m f of None \<Rightarrow> m | Some (i, m') \<Rightarrow> m') fs"

text \<open>The argument text a fragment carries: nothing when absent or empty (line 519).\<close>

definition argumentsOf :: "tool_fragment \<Rightarrow> string list" where
  "argumentsOf f = (case fragArguments f of None \<Rightarrow> [] | Some a \<Rightarrow> if a \<noteq> [] then [a] else [])"

text \<open>The argument fragments delivered for id \<open>i\<close>, in arrival order.\<close>

definition deliveredArguments :: "string \<Rightarrow> (int \<Rightarrow> string option) \<Rightarrow> tool_fragment list \<Rightarrow> string list" where
  "deliveredArguments i m fs =
     concat (map (\<lambda>p. argumentsOf (snd p)) (filter (\<lambda>p. fst p = i) (delivered m fs)))"

text \<open>The name fragments delivered for id \<open>i\<close>: the truthy \<open>function.name\<close>s.\<close>

definition namesOf :: "tool_fragment \<Rightarrow> string list" where
  "namesOf f = (case fragName f of None \<Rightarrow> [] | Some n \<Rightarrow> if n \<noteq> [] then [n] else [])"

definition deliveredNames :: "string \<Rightarrow> (int \<Rightarrow> string option) \<Rightarrow> tool_fragment list \<Rightarrow> string list" where
  "deliveredNames i m fs =
     concat (map (\<lambda>p. namesOf (snd p)) (filter (\<lambda>p. fst p = i) (delivered m fs)))"

text \<open>Lines 521-525, folded over a sequence of argument fragments.\<close>

fun accumulate :: "string \<Rightarrow> string list \<Rightarrow> string" where
  "accumulate buf [] = buf"
| "accumulate buf (a # as) = accumulate (if buf = ''{}'' then a else buf @ a) as"

text \<open>Line 509, folded over a sequence of names: the first one stays.\<close>

fun nameAfter :: "string \<Rightarrow> string list \<Rightarrow> string" where
  "nameAfter nm [] = nm"
| "nameAfter nm (n # ns) = nameAfter (if nm = [] then n else nm) ns"

text \<open>
  No tool-call fragment arrives in or after a frame that carries a finish signal: the
  first such frame has no fragments, and neither has any frame after it.
\<close>

fun fragmentsBeforeFinish :: "frame list \<Rightarrow> bool" where
  "fragmentsBeforeFinish [] = True"
| "fragmentsBeforeFinish (f # fs) =
     (if carriesFinish f then frameFragments f = [] \<and> streamFragments fs = []
      else fragmentsBeforeFinish fs)"

text \<open>
  The frames whose fragments reach call \<open>i\<close> before it is flushed.  The call is flushed
  by the first frame that carries a finish signal when the call is already tracked, that
  is, when an earlier frame delivered a fragment for \<open>i\<close>; the flush of lines 423-455 runs
  before the delta of its own frame is read (line 457), so that frame and the ones after
  it are left out.  Without such a frame the call is flushed at \<open>done\<close>, after all frames.
\<close>

fun beforeFlush :: "string \<Rightarrow> frame list \<Rightarrow> frame list \<Rightarrow> frame list" where
  "beforeFlush i seen [] = seen"
| "beforeFlush i seen (f # fs) =
     (if carriesFinish f \<and> i \<in> fst ` set (delivered (\<lambda>_. None) (streamFragments seen))
      then seen
      else beforeFlush i (seen @ [f]) fs)"

text \<open>The argument fragments delivered for id \<open>i\<close> before the call is flushed, in arrival order.\<close>

definition flushedArguments :: "string \<Rightarrow> frame list \<Rightarrow> string list" where
  "flushedArguments i fs = deliveredArguments i (\<lambda>_. None) (streamFragments (beforeFlush i [] fs))"

text \<open>
  Nothing but usage and finish signals arrives in or after a frame that carries a finish
  signal: from the first such frame on, no frame has text content or tool-call fragments.
\<close>

definition carriesContent :: "frame \<Rightarrow> bool" where
  "carriesContent parsed =
     (case firstChoice parsed of
        None \<Rightarrow> False
      | Some c \<Rightarrow> (case delta c of None \<Rightarrow> False | Some d \<Rightarrow> truthy (content d)))"

definition quietFrame :: "frame \<Rightarrow> bool" where
  "quietFrame parsed = (\<not> carriesContent parsed \<and> frameFragments parsed = [])"

fun quietAfterFinish :: "frame list \<Rightarrow> bool" where
  "quietAfterFinish [] = True"
| "quietAfterFinish (f # fs) =
     (if carriesFinish f then quietFrame f \<and> list_all quietFrame fs
      else quietAfterFinish fs)"

text \<open>
  Every call is named by the first fragment delivered for it: a fragment delivered for
  an id not seen before carries a truthy function name.
\<close>

fun namedFirst :: "string list \<Rightarrow> (string \<times> tool_fragment) list \<Rightarrow> bool" where
  "namedFirst seen [] = True"
| "namedFirst seen ((i, f) # rest) =
     ((i \<in> set seen \<or> truthy (fragName f)) \<and> namedFirst (i # seen) rest)"

text \<open>
  The sentinel of line 521 is not mistaken for content: no proper, non-empty prefix of
  the argument fragments concatenates to \<open>{}\<close>.
\<close>

definition sentinelFree :: "string list \<Rightarrow> bool" where
  "sentinelFree args = (\<forall>k. 0 < k \<and> k < length args \<longrightarrow> concat (take k args) \<noteq> ''{}'')"

text \<open>The argument buffer and the name of call \<open>i\<close>; those of a fresh call when \<open>i\<close> is not tracked.\<close>

definition bufferOf :: "session \<Rightarrow> string \<Rightarrow> string" where
  "bufferOf st i = tc_arguments (getOrCreate (toolCalls st) i)"

definition nameOf :: "session \<Rightarrow> string \<Rightarrow> string" where
  "nameOf st i = tc_name (getOrCreate (toolCalls st) i)"

subsection \<open>The sessions a stream goes through\<close>

text \<open>The session before the first frame and after each frame.\<close>

fun trace :: "(string \<Rightarrow> string) \<Rightarrow> session \<Rightarrow> frame list \<Rightarrow> session list" where
  "trace mapReason st [] = [st]"
| "trace mapReason st (f # fs) = st # trace mapReason (fst (processFrame mapReason st f)) fs"

text \<open>
  The sessions of a whole stream: \<open>trace\<close> over its decoded frames, then the session
  that \<open>pump\<close> ends in (after the flush at \<open>done\<close> when the stream ends normally).
\<close>

definition sessionTrace :: "(string \<Rightarrow> frame option) \<Rightarrow> (string \<Rightarrow> string) \<Rightarrow> read_result list \<Rightarrow> session list" where
  "sessionTrace parse mapReason reads =
     trace mapReason initial (readFrames parse reads) @ [fst (pump parse mapReason initial reads)]"

text \<open>
  How often the \<open>completed\<close> flag of call \<open>i\<close> goes from false to true, and from true to
  false, along a sequence of sessions.  A call that is not tracked yet counts as not
  completed.
\<close>

fun rises :: "string \<Rightarrow> session list \<Rightarrow> nat" where
  "rises i (s # t # ss) =
     (if \<not> completedIn s i \<and> completedIn t i then 1 else 0) + rises i (t # ss)"
| "rises i _ = 0"

fun falls :: "string \<Rightarrow> session list \<Rightarrow> nat" where
  "falls i (s # t # ss) =
     (if completedIn s i \<and> \<not> completedIn t i then 1 else 0) + falls i (t # ss)"
| "falls i _ = 0"

text \<open>Along a sequence of sessions, call \<open>i\<close> stays completed once it is.\<close>

fun steady :: "string \<Rightarrow> session list \<Rightarrow> bool" where
  "steady i (s # t # ss) = ((completedIn s i \<longrightarrow> completedIn t i) \<and> steady i (t # ss))"
| "steady i _ = True"

text \<open>
  The bookkeeping behind the order of text events: \<open>text-start\<close> stands before the other
  events of its id, and has been emitted exactly for the ids in \<open>textStarted\<close>.
\<close>

definition textOrder :: "string \<Rightarrow> session \<Rightarrow> event list \<Rightarrow> bool" where
  "textOrder t st es =
     (precedes (isTextStart t) (isTextPart t) es
      \<and> ((\<exists>e\<in>set es. isTextPart t e) \<longrightarrow> t \<in> set (textStarted st))
      \<and> (t \<in> set (textStarted st) \<longrightarrow> (\<exists>e\<in>set es. isTextStart t e)))"

text \<open>The events of a flush, and \<open>finish\<close>.\<close>

definition closing :: "event \<Rightarrow> bool" where
  "closing e = ((\<exists>k. e = ToolInputEnd k) \<or> (\<exists>k n a. e = ToolCall k n a) \<or> (\<exists>k. e = TextEnd k)
                \<or> isFinish e)"

text \<open>
  The bookkeeping behind the order of tool-call events when calls are named at once:
  \<open>tool-input-start\<close> stands before the other events of its id, events of an id exist
  only for tracked calls, and a tracked call has a name and its \<open>tool-input-start\<close>.
\<close>

definition startFirst :: "string \<Rightarrow> session \<Rightarrow> event list \<Rightarrow> bool" where
  "startFirst i st es =
     (precedes (isStart i) (isToolPart i) es
      \<and> ((\<exists>e\<in>set es. eventCall e = Some i) \<longrightarrow> i \<in> fst ` set (toolCalls st))
      \<and> (i \<in> fst ` set (toolCalls st) \<longrightarrow> (\<exists>e\<in>set es. isStart i e) \<and> nameOf st i \<noteq> []))"

subsection \<open>Sample streams\<close>

text \<open>
  The examples below feed \<open>doStream\<close> the way the repository's tests do
  (\<open>createMockStreamResponse\<close>): one chunk \<open>data: <payload>\n\n\<close> per frame.  The payloads
  are written without the double quotes of JSON, and \<open>sampleParse\<close> gives the frame each
  of them stands for; any other payload counts as malformed.  \<open>sampleReason\<close> stands in
  for \<open>mapHeliconeFinishReason\<close> and agrees with it on the two values the tests show.
\<close>

definition sse :: "string \<Rightarrow> read_result" where
  "sse payload = Chunk (''data: '' @ payload @ ''\<newline>\<newline>'')"

definition textFrame :: "string \<Rightarrow> frame" where
  "textFrame t =
     \<lparr> frame_usage = None,
       choices = Some [\<lparr> delta = Some \<lparr> content = Some t, tool_calls = None \<rparr>,
                        finish_reason = None \<rparr>] \<rparr>"

definition tokens :: "int \<Rightarrow> int \<Rightarrow> int \<Rightarrow> usage_obj" where
  "tokens p c t = \<lparr> prompt_tokens = Some p, completion_tokens = Some c, total_tokens = Some t \<rparr>"

text \<open>A usage object without \<open>total_tokens\<close>.\<close>

definition partialUsage :: usage_obj where
  "partialUsage = \<lparr> prompt_tokens = Some 100, completion_tokens = Some 50, total_tokens = None \<rparr>"

definition usageOnlyFrame :: "usage_obj \<Rightarrow> frame" where
  "usageOnlyFrame u = \<lparr> frame_usage = Some u, choices = Some [] \<rparr>"

definition finishFrame :: "string \<Rightarrow> usage_obj option \<Rightarrow> frame" where
  "finishFrame r u =
     \<lparr> frame_usage = u,
       choices = Some [\<lparr> delta = Some \<lparr> content = None, tool_calls = None \<rparr>,
                        finish_reason = Some r \<rparr>] \<rparr>"

definition fragment :: "int option \<Rightarrow> string option \<Rightarrow> string option \<Rightarrow> string option \<Rightarrow> tool_fragment" where
  "fragment i k n a =
     \<lparr> frag_index = i, frag_id = k,
       frag_function = Some \<lparr> fn_name = n, fn_arguments = a \<rparr> \<rparr>"

definition toolFrame :: "tool_fragment list \<Rightarrow> string option \<Rightarrow> frame" where
  "toolFrame tcs r =
     \<lparr> frame_usage = None,
       choices = Some [\<lparr> delta = Some \<lparr> content = None, tool_calls = Some tcs \<rparr>,
                        finish_reason = r \<rparr>] \<rparr>"

definition helloPayload :: string where
  "helloPayload = ''{choices:[{delta:{content:Hello},finish_reason:null}]}''"

definition worldPayload :: string where
  "worldPayload = ''{choices:[{delta:{content:World},finish_reason:null}]}''"

definition usagePayload :: string where
  "usagePayload = ''{choices:[],usage:{prompt_tokens:7,completion_tokens:1,total_tokens:9}}''"

definition stopPayload :: string where
  "stopPayload = ''{choices:[{delta:{},finish_reason:stop}],usage:{prompt_tokens:100,completion_tokens:50}}''"

definition toolsDonePayload :: string where
  "toolsDonePayload = ''{choices:[{delta:{},finish_reason:tool_calls}]}''"

definition callStartPayload :: string where
  "callStartPayload = ''{choices:[{delta:{tool_calls:[{index:0,id:c1,function:{name:f,arguments:{a:}}]},finish_reason:null}]}''"

definition callRestPayload :: string where
  "callRestPayload = ''{choices:[{delta:{tool_calls:[{index:0,function:{arguments:1}}}]},finish_reason:null}]}''"

definition callRestFinishPayload :: string where
  "callRestFinishPayload = ''{choices:[{delta:{tool_calls:[{index:0,function:{arguments:1}}}]},finish_reason:tool_calls}]}''"

definition unnamedPayload :: string where
  "unnamedPayload = ''{choices:[{delta:{tool_calls:[{index:0,id:c9,function:{arguments:{x:1}}}]},finish_reason:null}]}''"

definition unnamedStartPayload :: string where
  "unnamedStartPayload = ''{choices:[{delta:{tool_calls:[{index:0,id:c9,function:{arguments:{x:}}]},finish_reason:null}]}''"

definition lateNamePayload :: string where
  "lateNamePayload = ''{choices:[{delta:{tool_calls:[{index:0,function:{name:g}}]},finish_reason:null}]}''"

definition emptyArgsPayload :: string where
  "emptyArgsPayload = ''{choices:[{delta:{tool_calls:[{index:0,id:c2,function:{name:getCurrentTime,arguments:}}]},finish_reason:null}]}''"

definition sampleParse :: "string \<Rightarrow> frame option" where
  "sampleParse = map_of
     [(helloPayload, textFrame ''Hello''),
      (worldPayload, textFrame ''World''),
      (usagePayload, usageOnlyFrame (tokens 7 1 9)),
      (stopPayload, finishFrame ''stop'' (Some partialUsage)),
      (toolsDonePayload, finishFrame ''tool_calls'' None),
      (callStartPayload,
         toolFrame [fragment (Some 0) (Some ''c1'') (Some ''f'') (Some ''{a:'')] None),
      (callRestPayload,
         toolFrame [fragment (Some 0) None None (Some ''1}'')] None),
      (callRestFinishPayload,
         toolFrame [fragment (Some 0) None None (Some ''1}'')] (Some ''tool_calls'')),
      (unnamedPayload,
         toolFrame [fragment (Some 0) (Some ''c9'') None (Some ''{x:1}'')] None),
      (unnamedStartPayload,
         toolFrame [fragment (Some 0) (Some ''c9'') None (Some ''{x:'')] None),
      (lateNamePayload,
         toolFrame [fragment (Some 0) None (Some ''g'') None] None),
      (emptyArgsPayload,
         toolFrame [fragment (Some 0) (Some ''c2'') (Some ''getCurrentTime'') (Some [])] None)]"

definition sampleReason :: "string \<Rightarrow> string" where
  "sampleReason r = (if r = ''tool_calls'' then ''tool-calls'' else r)"

text \<open>The session after the first fragment of call \<open>c1\<close>.\<close>

definition afterStart :: session where
  "afterStart = fst (processToolCall initial (fragment (Some 0) (Some ''c1'') (Some ''f'') (Some ''{a:'')))"

section \<open>Lemmas\<close>

subsection \<open>The flattened view is the same computation\<close>

lemma truthy_iff: "truthy s \<longleftrightarrow> (\<exists>t. s = Some t \<and> t \<noteq> [])"
  by (cases s) auto

lemma run_append:
  "run mr st (as @ bs) =
     (let r = run mr st as; r' = run mr (fst r) bs in (fst r', snd r @ snd r'))"
  by (induction as arbitrary: st) (simp_all add: Let_def)

lemma processToolCalls_run: "processToolCalls st tcs = run mr st (map Fragment tcs)"
  by (induction tcs arbitrary: st) (simp_all add: Let_def)

lemma processContent_run: "processContent st d = run mr st (contentActions d)"
  by (simp add: processContent_def contentActions_def Let_def split: option.splits)

lemma processDelta_run: "processDelta st d = run mr st (contentActions d @ fragmentActions d)"
  by (simp add: processDelta_def run_append processContent_run [of _ _ mr] fragmentActions_def
      processToolCalls_run [of _ _ mr] Let_def split: option.splits)

lemma processFinish_run: "processFinish mr st c = run mr st (finishActions c)"
  by (simp add: processFinish_def finishActions_def Let_def split: option.splits)

lemma updateUsage_run: "run mr st (usageActions parsed) = (updateUsage st parsed, [])"
  by (simp add: updateUsage_def usageActions_def Let_def split: option.splits)

lemma processFrame_run: "processFrame mr st parsed = run mr st (frameActions parsed)"
proof -
  show ?thesis
    by (simp add: processFrame_def frameActions_def firstChoice_def run_append updateUsage_run Let_def
        processFinish_run deltaActions_def processDelta_run [of _ _ mr]
        split: option.splits list.splits)
qed

lemma processLine_run:
  "processLine parse mr st line = runFrames mr st (lineFrames parse line)"
  by (simp add: processLine_def lineFrames_def runFrames_def processFrame_run Let_def
      split: option.splits)

lemma runFrames_append:
  "runFrames mr st (fs @ gs) =
     (let r = runFrames mr st fs; r' = runFrames mr (fst r) gs in (fst r', snd r @ snd r'))"
  by (simp add: runFrames_def run_append)

lemma processLines_run:
  "processLines parse mr st ls = runFrames mr st (concat (map (lineFrames parse) ls))"
proof (induction ls arbitrary: st)
  case Nil
  show ?case by (simp add: runFrames_def)
next
  case (Cons l ls)
  show ?case by (simp add: Cons processLine_run runFrames_append Let_def)
qed

lemma processChunk_run:
  "processChunk parse mr st c = runFrames mr st (chunkFrames parse c)"
  by (simp add: processChunk_def chunkFrames_def processLines_run)

lemma pump_run:
  "endsNormally reads \<Longrightarrow>
   pump parse mr st reads =
     (let r = runFrames mr st (readFrames parse reads); r' = finishStream (fst r)
      in (fst r', snd r @ snd r', Closed))"
proof (induction reads arbitrary: st)
  case Nil
  show ?case by (simp add: runFrames_def Let_def)
next
  case (Cons a reads)
  then show ?case
    by (cases a) (simp_all add: processChunk_run runFrames_append Let_def)
qed

subsection \<open>What each step can emit\<close>

lemma completeToolCalls_events:
  "e \<in> set (snd (completeToolCalls cs)) \<Longrightarrow>
     (\<exists>k. e = ToolInputEnd k) \<or> (\<exists>k n i. e = ToolCall k n i)"
  by (induction cs) (auto simp: Let_def split: if_splits)

lemma completeTextParts_events:
  "e \<in> set (snd (completeTextParts ts ended)) \<Longrightarrow> (\<exists>k. e = TextEnd k)"
  by (induction ts arbitrary: ended) (auto simp: Let_def split: if_splits)

lemma flush_events:
  "e \<in> set (snd (flush st)) \<Longrightarrow>
     (\<exists>k. e = ToolInputEnd k) \<or> (\<exists>k n i. e = ToolCall k n i) \<or> (\<exists>k. e = TextEnd k)"
  by (auto simp: flush_def Let_def dest: completeToolCalls_events completeTextParts_events)

lemma flush_usage [simp]: "usage (fst (flush st)) = usage st"
  by (simp add: flush_def Let_def)

lemma flush_reason [simp]: "actualFinishReason (fst (flush st)) = actualFinishReason st"
  by (simp add: flush_def Let_def)

lemma processToolCall_events:
  "e \<in> set (snd (processToolCall st f)) \<Longrightarrow>
     (\<exists>k n. e = ToolInputStart k n) \<or> (\<exists>k a. e = ToolInputDelta k a)"
  by (auto simp: processToolCall_def applyName_def applyArguments_def Let_def
      split: option.splits if_splits prod.splits)

lemma processToolCall_usage [simp]: "usage (fst (processToolCall st f)) = usage st"
  by (simp add: processToolCall_def Let_def split: option.splits prod.splits)

lemma processToolCall_reason [simp]:
  "actualFinishReason (fst (processToolCall st f)) = actualFinishReason st"
  by (simp add: processToolCall_def Let_def split: option.splits prod.splits)

lemma step_no_finish: "e \<in> set (snd (step mr st a)) \<Longrightarrow> \<not> isFinish e"
  by (cases a) (auto dest: flush_events processToolCall_events split: if_splits)

lemma run_no_finish: "e \<in> set (snd (run mr st as)) \<Longrightarrow> \<not> isFinish e"
  by (induction as arbitrary: st) (auto simp: Let_def dest: step_no_finish)

lemma step_usage: "\<not> isSetUsage a \<Longrightarrow> usage (fst (step mr st a)) = usage st"
  by (cases a) simp_all

lemma step_reason: "\<not> isSignal a \<Longrightarrow> actualFinishReason (fst (step mr st a)) = actualFinishReason st"
  by (cases a) simp_all

lemma run_usage: "\<forall>a\<in>set as. \<not> isSetUsage a \<Longrightarrow> usage (fst (run mr st as)) = usage st"
  by (induction as arbitrary: st) (simp_all add: Let_def step_usage)

lemma run_reason:
  "\<forall>a\<in>set as. \<not> isSignal a \<Longrightarrow> actualFinishReason (fst (run mr st as)) = actualFinishReason st"
  by (induction as arbitrary: st) (simp_all add: Let_def step_reason)

lemma frameActions_no_usage:
  "frame_usage f = None \<Longrightarrow> a \<in> set (frameActions f) \<Longrightarrow> \<not> isSetUsage a"
  by (auto simp: frameActions_def usageActions_def finishActions_def deltaActions_def
      contentActions_def fragmentActions_def split: option.splits if_splits)

lemma finishActions_falsy: "\<not> truthy (finish_reason c) \<Longrightarrow> finishActions c = []"
  by (cases "finish_reason c") (simp_all add: finishActions_def)

lemma frameActions_no_signal:
  "\<not> carriesFinish f \<Longrightarrow> a \<in> set (frameActions f) \<Longrightarrow> \<not> isSignal a"
  by (cases "firstChoice f")
     (auto simp: frameActions_def usageActions_def finishActions_falsy deltaActions_def
      contentActions_def fragmentActions_def carriesFinish_def split: option.splits if_splits)

lemma doStream_run:
  "endsNormally reads \<Longrightarrow>
   doStream parse mr reads =
     (snd (runFrames mr initial (readFrames parse reads)) @
      snd (finishStream (fst (runFrames mr initial (readFrames parse reads)))), Closed)"
  by (simp add: doStream_def pump_run Let_def)

subsection \<open>Usage\<close>

lemma run_last_usage:
  "usage (fst (run mr st as)) =
     (if actionUsages as = [] then usage st else readUsage (last (actionUsages as)))"
proof (induction as arbitrary: st)
  case Nil
  show ?case by simp
next
  case (Cons a as)
  show ?case
    by (cases a) (simp_all add: Cons Let_def)
qed

lemma actionUsages_append: "actionUsages (as @ bs) = actionUsages as @ actionUsages bs"
  by (induction as rule: actionUsages.induct) simp_all

lemma actionUsages_fragments [simp]: "actionUsages (map Fragment tcs) = []"
  by (induction tcs) simp_all

lemma actionUsages_finish [simp]: "actionUsages (finishActions c) = []"
  by (simp add: finishActions_def split: option.splits)

lemma actionUsages_delta [simp]: "actionUsages (deltaActions c) = []"
  by (simp add: deltaActions_def contentActions_def fragmentActions_def actionUsages_append
      split: option.splits)

lemma actionUsages_frame:
  "actionUsages (frameActions f) = (case frame_usage f of None \<Rightarrow> [] | Some u \<Rightarrow> [u])"
  by (simp add: frameActions_def usageActions_def actionUsages_append split: option.splits)

lemma actionUsages_frames:
  "actionUsages (concat (map frameActions fs)) = frameUsages fs"
  by (induction fs) (simp_all add: actionUsages_append actionUsages_frame split: option.splits)

lemma processFrame_usage:
  "frame_usage f = Some u \<Longrightarrow> usage (fst (processFrame mr st f)) = readUsage u"
  by (simp add: processFrame_run run_last_usage actionUsages_frame)

lemma processFrame_keeps_usage:
  "frame_usage f = None \<Longrightarrow> usage (fst (processFrame mr st f)) = usage st"
  by (simp add: processFrame_run run_last_usage actionUsages_frame)

lemma readUsage_values:
  "readUsage u =
     \<lparr> inputTokens = (case prompt_tokens u of None \<Rightarrow> 0 | Some n \<Rightarrow> n),
       outputTokens = (case completion_tokens u of None \<Rightarrow> 0 | Some n \<Rightarrow> n),
       totalTokens = (case total_tokens u of None \<Rightarrow> 0 | Some n \<Rightarrow> n) \<rparr>"
  by (simp add: readUsage_def split: option.splits)

subsection \<open>Malformed payloads\<close>

lemma processLine_malformed:
  "malformedLine parse line \<Longrightarrow> processLine parse mr st line = (st, [])"
  by (simp add: malformedLine_def processLine_def Let_def)

lemma processLines_append:
  "processLines parse mr st (ls @ ms) =
     (let r = processLines parse mr st ls; r' = processLines parse mr (fst r) ms
      in (fst r', snd r @ snd r'))"
  by (induction ls arbitrary: st) (simp_all add: Let_def)

lemma processLines_drop_malformed:
  "malformedLine parse bad \<Longrightarrow>
   processLines parse mr st (ls @ bad # ms) = processLines parse mr st (ls @ ms)"
  by (simp add: processLines_append processLine_malformed Let_def)

lemma doStream_closed: "endsNormally reads \<Longrightarrow> snd (doStream parse mr reads) = Closed"
  by (simp add: doStream_run)

lemma two_text_frames:
  assumes "t1 \<noteq> []" "t2 \<noteq> []"
  shows "snd (runFrames mr initial [textFrame t1, textFrame t2]) @
         snd (finishStream (fst (runFrames mr initial [textFrame t1, textFrame t2]))) =
     [TextStart ''text-0'', TextDelta ''text-0'' t1, TextDelta ''text-0'' t2, TextEnd ''text-0'',
      Finish \<lparr> inputTokens = 0, outputTokens = 0, totalTokens = 0 \<rparr> ''stop'']"
  using assms
  by (simp add: runFrames_def frameActions_def textFrame_def usageActions_def firstChoice_def
      finishActions_def deltaActions_def contentActions_def fragmentActions_def Let_def
      initial_def set_add_def finishStream_def flush_def)

lemma pump_drop_chunk:
  "chunkFrames parse cb = [] \<Longrightarrow>
   pump parse mr st (rs1 @ Chunk cb # rs2) = pump parse mr st (rs1 @ rs2)"
proof (induction rs1 arbitrary: st)
  case Nil
  then show ?case by (simp add: processChunk_run runFrames_def Let_def)
next
  case (Cons r rs1)
  then show ?case by (cases r) (simp_all add: Let_def)
qed

lemma lineFrames_malformed: "malformedLine parse l \<Longrightarrow> lineFrames parse l = []"
  by (simp add: malformedLine_def lineFrames_def)

lemma lineFrames_not_data: "take 6 (trim l) \<noteq> ''data: '' \<Longrightarrow> lineFrames parse l = []"
  by (simp add: lineFrames_def)

lemma chunkFrames_malformed: "malformedChunk parse c \<Longrightarrow> chunkFrames parse c = []"
  by (auto simp: malformedChunk_def chunkFrames_def lineFrames_malformed lineFrames_not_data)

subsection \<open>The map of tracked calls\<close>

lemma map_of_map_set [simp]: "map_of (map_set cs k v) = (map_of cs)(k \<mapsto> v)"
  by (induction cs) (auto simp: fun_eq_iff)

lemma keys_map_set:
  "map fst (map_set cs k v) = (if k \<in> fst ` set cs then map fst cs else map fst cs @ [k])"
  by (induction cs k v rule: map_set.induct) (auto simp: image_iff)

lemma set_map_set: "set (map_set cs k v) \<subseteq> insert (k, v) (set cs)"
  by (induction cs k v rule: map_set.induct) (auto split: if_splits)

lemma set_keys_map_set [simp]: "fst ` set (map_set cs k v) = insert k (fst ` set cs)"
  by (induction cs k v rule: map_set.induct) (auto split: if_splits)

lemma wfCalls_map_set:
  "wfCalls cs \<Longrightarrow> tc_id v = k \<Longrightarrow> wfCalls (map_set cs k v)"
  unfolding wfCalls_def
  using set_map_set [of cs k v] by (auto simp: keys_map_set)

lemma getOrCreate_id: "wfCalls cs \<Longrightarrow> tc_id (getOrCreate cs i) = i"
  by (auto simp: getOrCreate_def newCall_def wfCalls_def split: option.splits dest!: map_of_SomeD)

lemma applyName_id [simp]: "tc_id (fst (applyName i f tc)) = tc_id tc"
  by (simp add: applyName_def split: option.splits)

lemma applyArguments_id [simp]: "tc_id (fst (applyArguments i f tc)) = tc_id tc"
  by (simp add: applyArguments_def split: option.splits)

lemma applyName_completed [simp]: "tc_completed (fst (applyName i f tc)) = tc_completed tc"
  by (simp add: applyName_def split: option.splits)

lemma applyArguments_completed [simp]: "tc_completed (fst (applyArguments i f tc)) = tc_completed tc"
  by (simp add: applyArguments_def split: option.splits)

lemma applyName_events: "e \<in> set (snd (applyName i f tc)) \<Longrightarrow> isStart i e"
  by (auto simp: applyName_def split: option.splits if_splits)

lemma applyArguments_events: "e \<in> set (snd (applyArguments i f tc)) \<Longrightarrow> isDelta i e"
  by (auto simp: applyArguments_def split: option.splits if_splits)

text \<open>The two outcomes of \<open>processToolCall\<close>.\<close>

lemma processToolCall_dropped:
  "resolveToolId (indexToId st) f = None \<Longrightarrow> processToolCall st f = (st, [])"
  by (simp add: processToolCall_def)

lemma processToolCall_resolved:
  "resolveToolId (indexToId st) f = Some (i, m) \<Longrightarrow>
   processToolCall st f =
     (st \<lparr> indexToId := m, toolCalls := map_set (toolCalls st) i (fed st f i) \<rparr>,
      snd (applyName i f (getOrCreate (toolCalls st) i)) @
      snd (applyArguments i f (fst (applyName i f (getOrCreate (toolCalls st) i)))))"
  by (simp add: processToolCall_def fed_def Let_def)

lemma resolve_by_id:
  "frag_id f = Some i \<Longrightarrow> i \<noteq> [] \<Longrightarrow>
   resolveToolId m f = Some (i, case frag_index f of None \<Rightarrow> m | Some n \<Rightarrow> m(n \<mapsto> i))"
  by (simp add: resolveToolId_def)

lemma resolve_by_index:
  "\<not> truthy (frag_id f) \<Longrightarrow> frag_index f = Some n \<Longrightarrow> m n = Some i \<Longrightarrow>
   resolveToolId m f = Some (i, m)"
  by (simp add: resolveToolId_def)

lemma resolve_none:
  "\<not> truthy (frag_id f) \<Longrightarrow> frag_index f = None \<or> (\<exists>n. frag_index f = Some n \<and> m n = None) \<Longrightarrow>
   resolveToolId m f = None"
  by (auto simp: resolveToolId_def)

lemma isStart_eventCall: "isStart i e \<Longrightarrow> eventCall e = Some i"
  by (cases e) simp_all

lemma isDelta_eventCall: "isDelta i e \<Longrightarrow> eventCall e = Some i"
  by (cases e) simp_all

lemma resolved_attributed:
  assumes "resolveToolId (indexToId st) f = Some (i, m)"
  shows "attributed st f i" and "indexToId (fst (processToolCall st f)) = m"
  unfolding attributed_def processToolCall_resolved [OF assms]
  by (auto dest!: applyName_events applyArguments_events isStart_eventCall isDelta_eventCall)

subsection \<open>Counting the events of the flush\<close>

lemma occurrences_append [simp]:
  "occurrences P (xs @ ys) = occurrences P xs + occurrences P ys"
  by (simp add: occurrences_def)

lemma occurrences_Nil [simp]: "occurrences P [] = 0"
  by (simp add: occurrences_def)

lemma occurrences_Cons [simp]:
  "occurrences P (x # xs) = (if P x then Suc (occurrences P xs) else occurrences P xs)"
  by (simp add: occurrences_def)

lemma occurrences_none: "(\<And>e. e \<in> set es \<Longrightarrow> \<not> P e) \<Longrightarrow> occurrences P es = 0"
  by (induction es) auto

lemma completeToolCalls_keys [simp]: "map fst (fst (completeToolCalls cs)) = map fst cs"
  by (induction cs) (auto simp: Let_def)

lemma completeToolCalls_map_of:
  "map_of (fst (completeToolCalls cs)) i =
     map_option (\<lambda>tc. tc \<lparr> tc_completed := True \<rparr>) (map_of cs i)"
  by (induction cs) (auto simp: Let_def)

lemma completed_update_idem: "tc_completed tc \<Longrightarrow> tc \<lparr> tc_completed := True \<rparr> = tc"
  by (cases tc) simp

lemma completeToolCalls_fst:
  "fst (completeToolCalls cs) = map (\<lambda>(k, tc). (k, tc \<lparr> tc_completed := True \<rparr>)) cs"
  by (induction cs) (auto simp: Let_def completed_update_idem)

lemma wfCalls_complete: "wfCalls cs \<Longrightarrow> wfCalls (fst (completeToolCalls cs))"
  unfolding wfCalls_def completeToolCalls_fst by (auto simp: comp_def case_prod_beta)

lemma completeToolCalls_about:
  "e \<in> set (snd (completeToolCalls cs)) \<Longrightarrow> \<exists>k tc. (k, tc) \<in> set cs \<and> eventCall e = Some (tc_id tc)"
proof (induction cs)
  case Nil
  then show ?case by simp
next
  case (Cons c cs)
  obtain k tc where c: "c = (k, tc)" by (cases c)
  from Cons.prems consider "eventCall e = Some (tc_id tc)" | "e \<in> set (snd (completeToolCalls cs))"
    by (auto simp: c Let_def split: if_splits)
  then show ?case
  proof cases
    case 1
    then show ?thesis by (auto simp: c)
  next
    case 2
    from Cons.IH [OF 2] show ?thesis by auto
  qed
qed

lemma wfCalls_Cons: "wfCalls ((k, tc) # cs) \<longleftrightarrow> tc_id tc = k \<and> k \<notin> fst ` set cs \<and> wfCalls cs"
  by (auto simp: wfCalls_def)

lemma isEnd_eventCall: "isEnd i e \<Longrightarrow> eventCall e = Some i"
  by (cases e) simp_all

lemma isCall_eventCall: "isCall i e \<Longrightarrow> eventCall e = Some i"
  by (cases e) simp_all

lemma completeToolCalls_other:
  assumes "wfCalls cs" "i \<notin> fst ` set cs"
  shows "occurrences (isEnd i) (snd (completeToolCalls cs)) = 0"
    and "occurrences (isCall i) (snd (completeToolCalls cs)) = 0"
proof -
  have "\<And>e. e \<in> set (snd (completeToolCalls cs)) \<Longrightarrow> eventCall e \<noteq> Some i"
    using assms by (force simp: wfCalls_def dest!: completeToolCalls_about)
  then show "occurrences (isEnd i) (snd (completeToolCalls cs)) = 0"
    and "occurrences (isCall i) (snd (completeToolCalls cs)) = 0"
    by (auto intro!: occurrences_none dest: isEnd_eventCall isCall_eventCall)
qed

lemma completeToolCalls_occurrences:
  "wfCalls cs \<Longrightarrow>
   occurrences (isEnd i) (snd (completeToolCalls cs)) =
     (case map_of cs i of None \<Rightarrow> 0 | Some tc \<Rightarrow> if tc_completed tc then 0 else 1)
   \<and> occurrences (isCall i) (snd (completeToolCalls cs)) =
     (case map_of cs i of None \<Rightarrow> 0 | Some tc \<Rightarrow> if tc_completed tc then 0 else 1)"
proof (induction cs)
  case Nil
  show ?case by simp
next
  case (Cons c cs)
  obtain k tc where c: "c = (k, tc)" by (cases c)
  from Cons.prems have w: "tc_id tc = k" "k \<notin> fst ` set cs" "wfCalls cs"
    by (simp_all add: c wfCalls_Cons)
  show ?case
  proof (cases "k = i")
    case True
    have "map_of cs i = None"
      using w(2) True by (simp add: map_of_eq_None_iff)
    then show ?thesis
      using completeToolCalls_other [OF w(3), of i] w True
      by (simp add: c Let_def)
  next
    case False
    then show ?thesis
      using Cons.IH [OF w(3)] w by (simp add: c Let_def)
  qed
qed

lemma completeTextParts_set:
  "set (fst (completeTextParts ts ended)) = set ended \<union> set ts"
  by (induction ts arbitrary: ended) (auto simp: Let_def set_add_def)

lemma completeTextParts_occurrences:
  "distinct ts \<Longrightarrow>
   occurrences (isTextEnd i) (snd (completeTextParts ts ended)) =
     (if i \<in> set ts \<and> i \<notin> set ended then 1 else 0)"
  by (induction ts arbitrary: ended) (auto simp: Let_def set_add_def)

lemma completedIn_flush:
  "completedIn (fst (flush st)) i \<longleftrightarrow> map_of (toolCalls st) i \<noteq> None"
  by (auto simp: completedIn_def flush_def Let_def completeToolCalls_map_of split: option.splits)

lemma wfSession_flush: "wfSession st \<Longrightarrow> wfSession (fst (flush st))"
  by (simp add: wfSession_def flush_def Let_def wfCalls_complete)

lemma flush_occurrences:
  "occurrences P (snd (flush st)) =
     occurrences P (snd (completeToolCalls (toolCalls st))) +
     occurrences P (snd (completeTextParts (textStarted st) (textEnded st)))"
  by (simp add: flush_def Let_def)

lemma counted_flush:
  assumes "wfSession st" "counted st es"
  shows "counted (fst (flush st)) (es @ snd (flush st))"
proof -
  have w: "wfCalls (toolCalls st)" "distinct (textStarted st)"
    using assms(1) by (simp_all add: wfSession_def)
  have t0: "occurrences (isEnd i) (snd (completeTextParts (textStarted st) (textEnded st))) = 0"
    "occurrences (isCall i) (snd (completeTextParts (textStarted st) (textEnded st))) = 0" for i
    by (auto intro!: occurrences_none dest!: completeTextParts_events)
  have c0: "occurrences (isTextEnd i) (snd (completeToolCalls (toolCalls st))) = 0" for i
    by (auto intro!: occurrences_none dest!: completeToolCalls_events)
  have old: "occurrences (isEnd i) es = (if completedIn st i then 1 else 0)"
    "occurrences (isCall i) es = (if completedIn st i then 1 else 0)"
    "occurrences (isTextEnd i) es = (if i \<in> set (textEnded st) then 1 else 0)" for i
    using assms(2) by (simp_all add: counted_def)
  have new: "occurrences (isEnd i) (snd (completeToolCalls (toolCalls st))) =
        (case map_of (toolCalls st) i of None \<Rightarrow> 0 | Some tc \<Rightarrow> if tc_completed tc then 0 else 1)"
    "occurrences (isCall i) (snd (completeToolCalls (toolCalls st))) =
        (case map_of (toolCalls st) i of None \<Rightarrow> 0 | Some tc \<Rightarrow> if tc_completed tc then 0 else 1)" for i
    using completeToolCalls_occurrences [OF w(1), of i] by simp_all
  have ci: "completedIn st i =
      (case map_of (toolCalls st) i of None \<Rightarrow> False | Some tc \<Rightarrow> tc_completed tc)" for i
    by (simp add: completedIn_def)
  have ended: "set (textEnded (fst (flush st))) = set (textEnded st) \<union> set (textStarted st)"
    by (simp add: flush_def Let_def completeTextParts_set)
  show ?thesis
    unfolding counted_def
  proof (intro allI conjI)
    fix i
    show "occurrences (isEnd i) (es @ snd (flush st)) = (if completedIn (fst (flush st)) i then 1 else 0)"
      by (cases "map_of (toolCalls st) i")
         (simp_all add: flush_occurrences old new t0 completedIn_flush ci)
    show "occurrences (isCall i) (es @ snd (flush st)) = (if completedIn (fst (flush st)) i then 1 else 0)"
      by (cases "map_of (toolCalls st) i")
         (simp_all add: flush_occurrences old new t0 completedIn_flush ci)
    show "occurrences (isTextEnd i) (es @ snd (flush st)) =
        (if i \<in> set (textEnded (fst (flush st))) then 1 else 0)"
      by (simp add: flush_occurrences old c0 ended completeTextParts_occurrences [OF w(2)])
  qed
qed

lemma wfSession_initial: "wfSession initial"
  by (simp add: wfSession_def wfCalls_def initial_def)

lemma counted_initial: "counted initial []"
  by (simp add: counted_def completedIn_def initial_def)

lemma fed_id: "wfCalls (toolCalls st) \<Longrightarrow> tc_id (fed st f i) = i"
  by (simp add: fed_def getOrCreate_id)

lemma fed_completed:
  "tc_completed (fed st f i) = completedIn st i"
  by (simp add: fed_def completedIn_def getOrCreate_def newCall_def split: option.splits)

lemma processToolCall_cases:
  "processToolCall st f = (st, [])
   \<or> (\<exists>i m. resolveToolId (indexToId st) f = Some (i, m)
        \<and> processToolCall st f =
         (st \<lparr> indexToId := m, toolCalls := map_set (toolCalls st) i (fed st f i) \<rparr>,
          snd (applyName i f (getOrCreate (toolCalls st) i)) @
          snd (applyArguments i f (fst (applyName i f (getOrCreate (toolCalls st) i))))))"
proof (cases "resolveToolId (indexToId st) f")
  case None
  then show ?thesis by (simp add: processToolCall_dropped)
next
  case (Some p)
  obtain i m where "p = (i, m)" by (cases p)
  with Some show ?thesis using processToolCall_resolved by blast
qed

lemma wfSession_processToolCall: "wfSession st \<Longrightarrow> wfSession (fst (processToolCall st f))"
  using processToolCall_cases [of st f]
  by (auto simp: wfSession_def wfCalls_map_set fed_id)

lemma completedIn_processToolCall:
  "completedIn (fst (processToolCall st f)) k = completedIn st k"
proof -
  consider "processToolCall st f = (st, [])"
    | i m where "processToolCall st f =
         (st \<lparr> indexToId := m, toolCalls := map_set (toolCalls st) i (fed st f i) \<rparr>,
          snd (applyName i f (getOrCreate (toolCalls st) i)) @
          snd (applyArguments i f (fst (applyName i f (getOrCreate (toolCalls st) i)))))"
    using processToolCall_cases [of st f] by blast
  then show ?thesis
  proof cases
    case 1
    then show ?thesis by simp
  next
    case (2 i m)
    show ?thesis
    proof (cases "k = i")
      case True
      then show ?thesis
        using fed_completed [of st f i] by (simp add: 2 completedIn_def)
    next
      case False
      then show ?thesis by (simp add: 2 completedIn_def)
    qed
  qed
qed

lemma processToolCall_textEnded [simp]:
  "textEnded (fst (processToolCall st f)) = textEnded st"
  using processToolCall_cases [of st f] by auto

lemma processToolCall_textStarted [simp]:
  "textStarted (fst (processToolCall st f)) = textStarted st"
  using processToolCall_cases [of st f] by auto

lemma processToolCall_no_completion:
  "occurrences (isEnd i) (snd (processToolCall st f)) = 0"
  "occurrences (isCall i) (snd (processToolCall st f)) = 0"
  "occurrences (isTextEnd i) (snd (processToolCall st f)) = 0"
  by (auto intro!: occurrences_none dest!: processToolCall_events)

lemma counted_processToolCall:
  "counted st es \<Longrightarrow> counted (fst (processToolCall st f)) (es @ snd (processToolCall st f))"
  by (simp add: counted_def completedIn_processToolCall processToolCall_no_completion)

lemma wfSession_step: "wfSession st \<Longrightarrow> wfSession (fst (step mr st a))"
proof (cases a)
  case (Signal r)
  assume "wfSession st"
  then have "wfSession (st \<lparr> actualFinishReason := mr r \<rparr>)" by (simp add: wfSession_def)
  then show ?thesis by (simp add: Signal wfSession_flush)
qed (auto simp: wfSession_def set_add_def wfSession_processToolCall [unfolded wfSession_def])

lemma counted_step:
  assumes "wfSession st" "counted st es"
  shows "counted (fst (step mr st a)) (es @ snd (step mr st a))"
proof (cases a)
  case (SetUsage u)
  then show ?thesis using assms(2) by (simp add: counted_def completedIn_def)
next
  case (Signal r)
  have "wfSession (st \<lparr> actualFinishReason := mr r \<rparr>)"
    using assms(1) by (simp add: wfSession_def)
  moreover have "counted (st \<lparr> actualFinishReason := mr r \<rparr>) es"
    using assms(2) by (simp add: counted_def completedIn_def)
  ultimately show ?thesis by (simp add: Signal counted_flush)
next
  case (Content t)
  then show ?thesis using assms(2) by (simp add: counted_def completedIn_def)
next
  case (Fragment f)
  then show ?thesis using assms(2) by (simp add: counted_processToolCall)
qed

lemma run_invariant:
  "wfSession st \<Longrightarrow> counted st es \<Longrightarrow>
   wfSession (fst (run mr st as)) \<and> counted (fst (run mr st as)) (es @ snd (run mr st as))"
proof (induction as arbitrary: st es)
  case Nil
  then show ?case by simp
next
  case (Cons a as)
  have "wfSession (fst (step mr st a))" "counted (fst (step mr st a)) (es @ snd (step mr st a))"
    using Cons.prems by (simp_all add: wfSession_step counted_step)
  from Cons.IH [OF this] show ?case by (simp add: Let_def)
qed

lemma runFrames_Nil [simp]: "runFrames mr st [] = (st, [])"
  by (simp add: runFrames_def)

lemma pump_events:
  "fst (snd (pump parse mr st reads)) =
     snd (runFrames mr st (readFrames parse reads)) @
     (if endsNormally reads
      then snd (finishStream (fst (runFrames mr st (readFrames parse reads)))) else [])"
proof (induction reads arbitrary: st)
  case Nil
  show ?case by (simp add: Let_def)
next
  case (Cons r reads)
  show ?case
    by (cases r) (simp_all add: Cons processChunk_run runFrames_append Let_def)
qed

lemma finishStream_occurrences:
  "\<not> P (Finish (usage (fst (flush st))) (actualFinishReason (fst (flush st)))) \<Longrightarrow>
   occurrences P (snd (finishStream st)) = occurrences P (snd (flush st))"
  by (simp add: finishStream_def Let_def)

lemma occurrences_le_one_of_counted:
  "counted st es \<Longrightarrow>
   occurrences (isEnd i) es \<le> 1 \<and> occurrences (isCall i) es \<le> 1 \<and> occurrences (isTextEnd i) es \<le> 1"
  by (simp add: counted_def)

subsection \<open>Argument buffers\<close>

lemma accumulate_append: "accumulate b (xs @ ys) = accumulate (accumulate b xs) ys"
  by (induction xs arbitrary: b) simp_all

lemma applyArguments_buffer:
  "tc_arguments (fst (applyArguments i f tc)) = accumulate (tc_arguments tc) (argumentsOf f)"
  by (simp add: applyArguments_def argumentsOf_def split: option.splits)

lemma applyName_buffer [simp]: "tc_arguments (fst (applyName i f tc)) = tc_arguments tc"
  by (simp add: applyName_def split: option.splits)

lemma fed_buffer: "tc_arguments (fed st f i) = accumulate (bufferOf st i) (argumentsOf f)"
  by (simp add: fed_def bufferOf_def applyArguments_buffer)

lemma getOrCreate_map_set:
  "getOrCreate (map_set cs i v) k = (if k = i then v else getOrCreate cs k)"
  by (simp add: getOrCreate_def)

lemma getOrCreate_complete:
  "getOrCreate (fst (completeToolCalls cs)) k =
     (case map_of cs k of None \<Rightarrow> newCall k | Some tc \<Rightarrow> tc \<lparr> tc_completed := True \<rparr>)"
  by (simp add: getOrCreate_def completeToolCalls_map_of split: option.splits)

lemma bufferOf_flush [simp]: "bufferOf (fst (flush st)) k = bufferOf st k"
  by (simp add: bufferOf_def flush_def Let_def getOrCreate_complete)
     (simp add: getOrCreate_def split: option.splits)

lemma nameOf_flush [simp]: "nameOf (fst (flush st)) k = nameOf st k"
  by (simp add: nameOf_def flush_def Let_def getOrCreate_complete)
     (simp add: getOrCreate_def split: option.splits)

lemma flush_indexToId [simp]: "indexToId (fst (flush st)) = indexToId st"
  by (simp add: flush_def Let_def)

lemma bufferOf_other_fields [simp]:
  "bufferOf (st \<lparr> actualFinishReason := r \<rparr>) = bufferOf st"
  "bufferOf (st \<lparr> usage := u \<rparr>) = bufferOf st"
  "bufferOf (st \<lparr> textStarted := ts \<rparr>) = bufferOf st"
  by (simp_all add: bufferOf_def fun_eq_iff)

lemma nameOf_other_fields [simp]:
  "nameOf (st \<lparr> actualFinishReason := r \<rparr>) = nameOf st"
  "nameOf (st \<lparr> usage := u \<rparr>) = nameOf st"
  "nameOf (st \<lparr> textStarted := ts \<rparr>) = nameOf st"
  by (simp_all add: nameOf_def fun_eq_iff)

text \<open>What one step does to the buffer of call \<open>i\<close> and to the index map.\<close>

lemma resolved_step:
  assumes "resolveToolId (indexToId st) f = Some (k, m)"
  shows "indexToId (fst (processToolCall st f)) = m"
    and "bufferOf (fst (processToolCall st f)) i =
           (if i = k then accumulate (bufferOf st i) (argumentsOf f) else bufferOf st i)"
  using fed_buffer [of st f k]
  by (simp_all add: processToolCall_resolved [OF assms] bufferOf_def getOrCreate_map_set)

lemma delivered_Cons_arguments:
  "deliveredArguments i m (f # fs) =
     (case resolveToolId m f of
        None \<Rightarrow> deliveredArguments i m fs
      | Some (k, m') \<Rightarrow> (if k = i then argumentsOf f else []) @ deliveredArguments i m' fs)"
  by (simp add: deliveredArguments_def split: option.splits)

lemma step_buffer:
  "bufferOf (fst (step mr st a)) i =
     accumulate (bufferOf st i) (deliveredArguments i (indexToId st) (actionFragments [a]))
   \<and> indexToId (fst (step mr st a)) = indexAfter (indexToId st) (actionFragments [a])"
proof (cases a)
  case (Fragment f)
  show ?thesis
  proof (cases "resolveToolId (indexToId st) f")
    case None
    then show ?thesis
      by (simp add: Fragment processToolCall_dropped delivered_Cons_arguments deliveredArguments_def)
  next
    case (Some p)
    obtain k m where p: "p = (k, m)" by (cases p)
    show ?thesis
      using resolved_step(1) [OF Some [unfolded p]] resolved_step(2) [OF Some [unfolded p], of i]
      by (simp add: Fragment Some p delivered_Cons_arguments deliveredArguments_def)
  qed
qed (simp_all add: deliveredArguments_def)

lemma actionFragments_append [simp]:
  "actionFragments (as @ bs) = actionFragments as @ actionFragments bs"
  by (induction as rule: actionFragments.induct) simp_all

lemma delivered_append:
  "delivered m (fs @ gs) = delivered m fs @ delivered (indexAfter m fs) gs"
  by (induction fs arbitrary: m) (simp_all split: option.splits)

lemma indexAfter_append: "indexAfter m (fs @ gs) = indexAfter (indexAfter m fs) gs"
  by (induction fs arbitrary: m) simp_all

lemma deliveredArguments_append:
  "deliveredArguments i m (fs @ gs) =
     deliveredArguments i m fs @ deliveredArguments i (indexAfter m fs) gs"
  by (simp add: deliveredArguments_def delivered_append)

lemma run_buffer:
  "bufferOf (fst (run mr st as)) i =
     accumulate (bufferOf st i) (deliveredArguments i (indexToId st) (actionFragments as))
   \<and> indexToId (fst (run mr st as)) = indexAfter (indexToId st) (actionFragments as)"
proof (induction as arbitrary: st)
  case Nil
  show ?case by (simp add: deliveredArguments_def)
next
  case (Cons a as)
  have s: "actionFragments (a # as) = actionFragments [a] @ actionFragments as"
    using actionFragments_append [of "[a]" as] by simp
  show ?case
    unfolding s deliveredArguments_append indexAfter_append accumulate_append
    using Cons [of "fst (step mr st a)"] step_buffer [of mr st a i]
    by (simp add: Let_def)
qed

subsection \<open>What a tool-call event reports\<close>

lemma completeToolCalls_calls:
  "wfCalls cs \<Longrightarrow> ToolCall i n a \<in> set (snd (completeToolCalls cs)) \<Longrightarrow>
   \<exists>tc. map_of cs i = Some tc \<and> \<not> tc_completed tc \<and> n = tc_name tc \<and> a = tc_arguments tc"
proof (induction cs)
  case Nil
  then show ?case by simp
next
  case (Cons c cs)
  obtain k tc where c: "c = (k, tc)" by (cases c)
  from Cons.prems(1) have w: "tc_id tc = k" "k \<notin> fst ` set cs" "wfCalls cs"
    by (simp_all add: c wfCalls_Cons)
  from Cons.prems(2) consider
    (here) "\<not> tc_completed tc" "i = k" "n = tc_name tc" "a = tc_arguments tc"
    | (later) "ToolCall i n a \<in> set (snd (completeToolCalls cs))"
    using w(1) by (auto simp: c Let_def split: if_splits)
  then show ?case
  proof cases
    case here
    then show ?thesis by (simp add: c)
  next
    case later
    from Cons.IH [OF w(3) later] obtain tc' where
      t: "map_of cs i = Some tc'" "\<not> tc_completed tc'" "n = tc_name tc'" "a = tc_arguments tc'"
      by blast
    from t(1) have "i \<in> fst ` set cs"
      by (metis map_of_eq_None_iff option.distinct(1))
    with w(2) have "i \<noteq> k" by blast
    with t show ?thesis by (simp add: c)
  qed
qed

lemma flush_calls:
  assumes "wfSession st" "ToolCall i n a \<in> set (snd (flush st))"
  shows "n = nameOf st i \<and> a = bufferOf st i \<and> i \<in> fst ` set (toolCalls st)"
proof -
  have "ToolCall i n a \<in> set (snd (completeToolCalls (toolCalls st)))"
    using assms(2) by (auto simp: flush_def Let_def dest: completeTextParts_events)
  from completeToolCalls_calls [OF _ this] assms(1) obtain tc where
    t: "map_of (toolCalls st) i = Some tc" "n = tc_name tc" "a = tc_arguments tc"
    by (auto simp: wfSession_def)
  from t(1) have "i \<in> fst ` set (toolCalls st)"
    by (metis map_of_eq_None_iff option.distinct(1))
  then show ?thesis
    using t by (simp add: nameOf_def bufferOf_def getOrCreate_def)
qed

lemma step_calls:
  assumes "wfSession st" "ToolCall i n a \<in> set (snd (step mr st x))"
  shows "n = nameOf st i \<and> a = bufferOf st i \<and> i \<in> fst ` set (toolCalls st)"
proof (cases x)
  case (Signal r)
  have "wfSession (st \<lparr> actualFinishReason := mr r \<rparr>)"
    using assms(1) by (simp add: wfSession_def)
  from flush_calls [OF this] assms(2) show ?thesis
    by (simp add: Signal)
next
  case (Fragment f)
  then show ?thesis
    using assms(2) by (auto dest: processToolCall_events)
qed (use assms(2) in \<open>auto split: if_splits\<close>)

lemma finishStream_calls:
  assumes "wfSession st" "ToolCall i n a \<in> set (snd (finishStream st))"
  shows "n = nameOf st i \<and> a = bufferOf st i \<and> i \<in> fst ` set (toolCalls st)"
  using flush_calls [OF assms(1), of i n a] assms(2)
  by (simp add: finishStream_def Let_def)

lemma call_inputs:
  "wfSession st \<Longrightarrow>
   ToolCall i n a \<in> set (snd (run mr st as) @ snd (finishStream (fst (run mr st as)))) \<Longrightarrow>
   \<exists>k. a = accumulate (bufferOf st i)
             (take k (deliveredArguments i (indexToId st) (actionFragments as)))"
proof (induction as arbitrary: st)
  case Nil
  then have "a = bufferOf st i"
    using finishStream_calls [of st i n a] by simp
  then have "a = accumulate (bufferOf st i)
      (take 0 (deliveredArguments i (indexToId st) (actionFragments [])))"
    by simp
  then show ?case by blast
next
  case (Cons x as)
  let ?st1 = "fst (step mr st x)"
  let ?d = "deliveredArguments i (indexToId st) (actionFragments [x])"
  have s: "actionFragments (x # as) = actionFragments [x] @ actionFragments as"
    using actionFragments_append [of "[x]" as] by simp
  from Cons.prems(2) consider
    (now) "ToolCall i n a \<in> set (snd (step mr st x))"
    | (later) "ToolCall i n a \<in> set (snd (run mr ?st1 as) @ snd (finishStream (fst (run mr ?st1 as))))"
    by (auto simp: Let_def)
  then show ?case
  proof cases
    case now
    from step_calls [OF Cons.prems(1) now] have "a = accumulate (bufferOf st i) (take 0 (deliveredArguments i (indexToId st) (actionFragments (x # as))))"
      by simp
    then show ?thesis by blast
  next
    case later
    have w: "wfSession ?st1"
      using Cons.prems(1) by (rule wfSession_step)
    from Cons.IH [OF w later] obtain k where
      k: "a = accumulate (bufferOf ?st1 i) (take k (deliveredArguments i (indexToId ?st1) (actionFragments as)))"
      by blast
    have b: "bufferOf ?st1 i = accumulate (bufferOf st i) ?d"
      and m: "indexToId ?st1 = indexAfter (indexToId st) (actionFragments [x])"
      using step_buffer [of mr st x i] by simp_all
    have "a = accumulate (bufferOf st i)
        (take (length ?d + k) (deliveredArguments i (indexToId st) (actionFragments (x # as))))"
      unfolding s deliveredArguments_append
      by (simp add: k b m accumulate_append)
    then show ?thesis by blast
  qed
qed

text \<open>Tracked calls stay tracked, and a delivered fragment tracks its call.\<close>

lemma keys_step: "fst ` set (toolCalls st) \<subseteq> fst ` set (toolCalls (fst (step mr st x)))"
proof (cases x)
  case (Signal r)
  have "map fst (toolCalls (fst (flush (st \<lparr> actualFinishReason := mr r \<rparr>)))) = map fst (toolCalls st)"
    by (simp add: flush_def Let_def)
  then have "fst ` set (toolCalls (fst (flush (st \<lparr> actualFinishReason := mr r \<rparr>)))) = fst ` set (toolCalls st)"
    by (metis list.set_map)
  then show ?thesis by (simp add: Signal)
next
  case (Fragment f)
  consider "processToolCall st f = (st, [])"
    | i m where "processToolCall st f =
         (st \<lparr> indexToId := m, toolCalls := map_set (toolCalls st) i (fed st f i) \<rparr>,
          snd (applyName i f (getOrCreate (toolCalls st) i)) @
          snd (applyArguments i f (fst (applyName i f (getOrCreate (toolCalls st) i)))))"
    using processToolCall_cases [of st f] by blast
  then show ?thesis
  proof cases
    case 1
    then show ?thesis by (simp add: Fragment)
  next
    case (2 i m)
    show ?thesis by (simp add: Fragment 2 subset_insertI)
  qed
qed auto

lemma keys_run: "fst ` set (toolCalls st) \<subseteq> fst ` set (toolCalls (fst (run mr st as)))"
proof (induction as arbitrary: st)
  case Nil
  show ?case by simp
next
  case (Cons x as)
  show ?case
    using keys_step [of st mr x] Cons [of "fst (step mr st x)"] by (auto simp: Let_def)
qed

lemma delivered_tracked:
  "(i, f) \<in> set (delivered (indexToId st) (actionFragments as)) \<Longrightarrow>
   i \<in> fst ` set (toolCalls (fst (run mr st as)))"
proof (induction as arbitrary: st)
  case Nil
  then show ?case by simp
next
  case (Cons x as)
  let ?st1 = "fst (step mr st x)"
  have m: "indexToId ?st1 = indexAfter (indexToId st) (actionFragments [x])"
    using step_buffer [of mr st x i] by simp
  have s: "actionFragments (x # as) = actionFragments [x] @ actionFragments as"
    using actionFragments_append [of "[x]" as] by simp
  from Cons.prems consider
    (now) "(i, f) \<in> set (delivered (indexToId st) (actionFragments [x]))"
    | (later) "(i, f) \<in> set (delivered (indexToId ?st1) (actionFragments as))"
    unfolding s delivered_append m by auto
  then show ?case
  proof cases
    case now
    then obtain g m' where x: "x = Fragment g" and r: "resolveToolId (indexToId st) g = Some (i, m')"
      by (cases x) (auto split: option.splits)
    have "i \<in> fst ` set (toolCalls ?st1)"
      by (simp add: x processToolCall_resolved [OF r])
    then show ?thesis
      using keys_run [of ?st1 mr as] by (auto simp: Let_def)
  next
    case later
    from Cons.IH [OF later] show ?thesis by (simp add: Let_def)
  qed
qed

lemma actionFragments_map [simp]: "actionFragments (map Fragment tcs) = tcs"
  by (induction tcs) simp_all

lemma actionFragments_frame: "actionFragments (frameActions f) = frameFragments f"
  by (simp add: frameActions_def frameFragments_def usageActions_def finishActions_def
      deltaActions_def contentActions_def fragmentActions_def split: option.splits)

lemma actionFragments_frames:
  "actionFragments (concat (map frameActions fs)) = streamFragments fs"
  by (induction fs) (simp_all add: streamFragments_def actionFragments_frame)

lemma doStream_events:
  "endsNormally reads \<Longrightarrow>
   fst (doStream parse mr reads) =
     snd (run mr initial (concat (map frameActions (readFrames parse reads)))) @
     snd (finishStream (fst (run mr initial (concat (map frameActions (readFrames parse reads))))))"
  by (simp add: doStream_run runFrames_def)

lemma final_counts:
  assumes "wfSession st" "counted st []"
  shows "occurrences (isCall i) (snd (run mr st as) @ snd (finishStream (fst (run mr st as)))) =
           (if i \<in> fst ` set (toolCalls (fst (run mr st as))) then 1 else 0)"
    and "occurrences (isEnd i) (snd (run mr st as) @ snd (finishStream (fst (run mr st as)))) =
           (if i \<in> fst ` set (toolCalls (fst (run mr st as))) then 1 else 0)"
proof -
  let ?r = "run mr st as"
  have inv: "wfSession (fst ?r)" "counted (fst ?r) (snd ?r)"
    using run_invariant [OF assms, of mr as] by simp_all
  have c: "counted (fst (flush (fst ?r))) (snd ?r @ snd (flush (fst ?r)))"
    using inv by (rule counted_flush)
  have k: "completedIn (fst (flush (fst ?r))) i \<longleftrightarrow> i \<in> fst ` set (toolCalls (fst ?r))"
    by (simp add: completedIn_flush map_of_eq_None_iff)
  show "occurrences (isCall i) (snd ?r @ snd (finishStream (fst ?r))) =
           (if i \<in> fst ` set (toolCalls (fst ?r)) then 1 else 0)"
    using c k by (simp add: counted_def finishStream_occurrences)
  show "occurrences (isEnd i) (snd ?r @ snd (finishStream (fst ?r))) =
           (if i \<in> fst ` set (toolCalls (fst ?r)) then 1 else 0)"
    using c k by (simp add: counted_def finishStream_occurrences)
qed

lemma filter_single:
  "occurrences P es = 1 \<Longrightarrow> \<exists>e. filter P es = [e] \<and> P e \<and> e \<in> set es"
proof -
  assume "occurrences P es = 1"
  then have "length (filter P es) = 1" by (simp add: occurrences_def)
  then obtain e where e: "filter P es = [e]"
    by (cases "filter P es") auto
  have "e \<in> set (filter P es)" by (simp add: e)
  then have "P e" "e \<in> set es" by simp_all
  then show ?thesis using e by blast
qed

lemma isCall_cases: "isCall i e \<Longrightarrow> \<exists>n a. e = ToolCall i n a"
  by (cases e) simp_all

lemma argumentsOf_empty: "fragArguments f = Some [] \<Longrightarrow> argumentsOf f = []"
  by (simp add: argumentsOf_def)

lemma applyArguments_empty:
  "fragArguments f = Some [] \<Longrightarrow> applyArguments i f tc = (tc, [])"
  by (simp add: applyArguments_def)

lemma isStart_not_isDelta: "isStart i e \<Longrightarrow> \<forall>k. \<not> isDelta k e"
  by (cases e) simp_all

lemma empty_fragment:
  assumes "fragArguments f = Some []"
  shows "\<forall>e\<in>set (snd (processToolCall st f)). \<forall>i. \<not> isDelta i e"
    and "\<forall>i. bufferOf (fst (processToolCall st f)) i = bufferOf st i"
proof -
  consider "processToolCall st f = (st, [])"
    | k m where "resolveToolId (indexToId st) f = Some (k, m)"
    using processToolCall_cases [of st f] by blast
  then have "(\<forall>e\<in>set (snd (processToolCall st f)). \<forall>i. \<not> isDelta i e)
      \<and> (\<forall>i. bufferOf (fst (processToolCall st f)) i = bufferOf st i)"
  proof cases
    case 1
    then show ?thesis by simp
  next
    case (2 k m)
    have "\<forall>e\<in>set (snd (processToolCall st f)). \<forall>i. \<not> isDelta i e"
      using applyName_events isStart_not_isDelta
      by (fastforce simp: processToolCall_resolved [OF 2] applyArguments_empty [OF assms])
    moreover have "\<forall>i. bufferOf (fst (processToolCall st f)) i = bufferOf st i"
      by (simp add: resolved_step(2) [OF 2] argumentsOf_empty [OF assms])
    ultimately show ?thesis by blast
  qed
  then show "\<forall>e\<in>set (snd (processToolCall st f)). \<forall>i. \<not> isDelta i e"
    and "\<forall>i. bufferOf (fst (processToolCall st f)) i = bufferOf st i"
    by blast+
qed

lemma bufferOf_initial [simp]: "bufferOf initial i = ''{}''"
  by (simp add: bufferOf_def getOrCreate_def newCall_def initial_def)

lemma indexToId_initial [simp]: "indexToId initial = (\<lambda>_. None)"
  by (simp add: initial_def)

subsection \<open>Names\<close>

lemma nameAfter_append: "nameAfter b (xs @ ys) = nameAfter (nameAfter b xs) ys"
  by (induction xs arbitrary: b) simp_all

lemma applyName_name:
  "tc_name (fst (applyName i f tc)) = nameAfter (tc_name tc) (namesOf f)"
  by (simp add: applyName_def namesOf_def split: option.splits)

lemma applyArguments_name [simp]: "tc_name (fst (applyArguments i f tc)) = tc_name tc"
  by (simp add: applyArguments_def split: option.splits)

lemma fed_name: "tc_name (fed st f i) = nameAfter (nameOf st i) (namesOf f)"
  by (simp add: fed_def nameOf_def applyName_name)

lemma resolved_step_name:
  assumes "resolveToolId (indexToId st) f = Some (k, m)"
  shows "nameOf (fst (processToolCall st f)) i =
           (if i = k then nameAfter (nameOf st i) (namesOf f) else nameOf st i)"
  using fed_name [of st f k]
  by (simp add: processToolCall_resolved [OF assms] nameOf_def getOrCreate_map_set)

lemma delivered_Cons_names:
  "deliveredNames i m (f # fs) =
     (case resolveToolId m f of
        None \<Rightarrow> deliveredNames i m fs
      | Some (k, m') \<Rightarrow> (if k = i then namesOf f else []) @ deliveredNames i m' fs)"
  by (simp add: deliveredNames_def split: option.splits)

lemma deliveredNames_append:
  "deliveredNames i m (fs @ gs) =
     deliveredNames i m fs @ deliveredNames i (indexAfter m fs) gs"
  by (simp add: deliveredNames_def delivered_append)

lemma step_name:
  "nameOf (fst (step mr st a)) i =
     nameAfter (nameOf st i) (deliveredNames i (indexToId st) (actionFragments [a]))"
proof (cases a)
  case (Fragment f)
  show ?thesis
  proof (cases "resolveToolId (indexToId st) f")
    case None
    then show ?thesis
      by (simp add: Fragment processToolCall_dropped delivered_Cons_names deliveredNames_def)
  next
    case (Some p)
    obtain k m where p: "p = (k, m)" by (cases p)
    show ?thesis
      using resolved_step_name [OF Some [unfolded p], of i]
      by (simp add: Fragment Some p delivered_Cons_names deliveredNames_def)
  qed
qed (simp_all add: deliveredNames_def)

lemma call_names:
  "wfSession st \<Longrightarrow>
   ToolCall i n a \<in> set (snd (run mr st as) @ snd (finishStream (fst (run mr st as)))) \<Longrightarrow>
   \<exists>k. n = nameAfter (nameOf st i)
             (take k (deliveredNames i (indexToId st) (actionFragments as)))"
proof (induction as arbitrary: st)
  case Nil
  then have "n = nameOf st i"
    using finishStream_calls [of st i n a] by simp
  then have "n = nameAfter (nameOf st i)
      (take 0 (deliveredNames i (indexToId st) (actionFragments [])))"
    by simp
  then show ?case by blast
next
  case (Cons x as)
  let ?st1 = "fst (step mr st x)"
  let ?d = "deliveredNames i (indexToId st) (actionFragments [x])"
  have s: "actionFragments (x # as) = actionFragments [x] @ actionFragments as"
    using actionFragments_append [of "[x]" as] by simp
  from Cons.prems(2) consider
    (now) "ToolCall i n a \<in> set (snd (step mr st x))"
    | (later) "ToolCall i n a \<in> set (snd (run mr ?st1 as) @ snd (finishStream (fst (run mr ?st1 as))))"
    by (auto simp: Let_def)
  then show ?case
  proof cases
    case now
    from step_calls [OF Cons.prems(1) now] have "n = nameAfter (nameOf st i)
        (take 0 (deliveredNames i (indexToId st) (actionFragments (x # as))))"
      by simp
    then show ?thesis by blast
  next
    case later
    have w: "wfSession ?st1"
      using Cons.prems(1) by (rule wfSession_step)
    from Cons.IH [OF w later] obtain k where
      k: "n = nameAfter (nameOf ?st1 i) (take k (deliveredNames i (indexToId ?st1) (actionFragments as)))"
      by blast
    have b: "nameOf ?st1 i = nameAfter (nameOf st i) ?d"
      by (rule step_name)
    have m: "indexToId ?st1 = indexAfter (indexToId st) (actionFragments [x])"
      using step_buffer [of mr st x i] by simp
    have "n = nameAfter (nameOf st i)
        (take (length ?d + k) (deliveredNames i (indexToId st) (actionFragments (x # as))))"
      unfolding s deliveredNames_append
      by (simp add: k b m nameAfter_append)
    then show ?thesis by blast
  qed
qed

text \<open>A \<open>tool-input-start\<close> carries a name that was delivered for its id.\<close>

lemma applyName_start:
  "ToolInputStart i n \<in> set (snd (applyName k f tc)) \<Longrightarrow> i = k \<and> n \<in> set (namesOf f)"
  by (auto simp: applyName_def namesOf_def split: option.splits if_splits)

lemma step_start:
  "ToolInputStart i n \<in> set (snd (step mr st x)) \<Longrightarrow>
   n \<in> set (deliveredNames i (indexToId st) (actionFragments [x]))"
proof (cases x)
  case (Signal r)
  assume "ToolInputStart i n \<in> set (snd (step mr st x))"
  then show ?thesis by (auto simp: Signal dest: flush_events)
next
  case (Fragment f)
  assume a: "ToolInputStart i n \<in> set (snd (step mr st x))"
  show ?thesis
  proof (cases "resolveToolId (indexToId st) f")
    case None
    then show ?thesis using a by (simp add: Fragment processToolCall_dropped)
  next
    case (Some p)
    obtain k m where p: "p = (k, m)" by (cases p)
    from a have "ToolInputStart i n \<in> set (snd (applyName k f (getOrCreate (toolCalls st) k)))"
      by (auto simp: Fragment processToolCall_resolved [OF Some [unfolded p]]
          dest: applyArguments_events)
    from applyName_start [OF this] show ?thesis
      by (simp add: Fragment Some p delivered_Cons_names deliveredNames_def)
  qed
qed (auto split: if_splits)

lemma run_start:
  "ToolInputStart i n \<in> set (snd (run mr st as)) \<Longrightarrow>
   n \<in> set (deliveredNames i (indexToId st) (actionFragments as))"
proof (induction as arbitrary: st)
  case Nil
  then show ?case by simp
next
  case (Cons x as)
  let ?st1 = "fst (step mr st x)"
  have s: "actionFragments (x # as) = actionFragments [x] @ actionFragments as"
    using actionFragments_append [of "[x]" as] by simp
  have m: "indexToId ?st1 = indexAfter (indexToId st) (actionFragments [x])"
    using step_buffer [of mr st x i] by simp
  from Cons.prems consider
    (now) "ToolInputStart i n \<in> set (snd (step mr st x))"
    | (later) "ToolInputStart i n \<in> set (snd (run mr ?st1 as))"
    by (auto simp: Let_def)
  then show ?case
  proof cases
    case now
    from step_start [OF now] show ?thesis
      unfolding s deliveredNames_append by simp
  next
    case later
    from Cons.IH [OF later] show ?thesis
      unfolding s deliveredNames_append m by simp
  qed
qed

lemma finishStream_no_start: "ToolInputStart i n \<notin> set (snd (finishStream st))"
  by (auto simp: finishStream_def Let_def dest: flush_events)

text \<open>\<open>tool-input-end\<close> and \<open>tool-call\<close> come in pairs.\<close>

lemma adjacent_append: "adjacent x y es \<Longrightarrow> adjacent x y (pre @ es @ post)"
  unfolding adjacent_def
proof -
  assume "\<exists>es1 es2. es = es1 @ x # y # es2"
  then obtain es1 es2 where "es = es1 @ x # y # es2" by blast
  then have "pre @ es @ post = (pre @ es1) @ x # y # (es2 @ post)" by simp
  then show "\<exists>es1 es2. pre @ es @ post = es1 @ x # y # es2" by blast
qed

lemma paired_append: "paired xs \<Longrightarrow> paired ys \<Longrightarrow> paired (xs @ ys)"
  unfolding paired_def
  using adjacent_append [of _ _ xs "[]" ys] adjacent_append [of _ _ ys xs "[]"]
  by (metis Un_iff append_Nil append_Nil2 set_append)

lemma paired_no_calls: "(\<And>i n a. ToolCall i n a \<notin> set es) \<Longrightarrow> paired es"
  by (simp add: paired_def)

lemma paired_complete: "paired (snd (completeToolCalls cs))"
proof (induction cs)
  case Nil
  show ?case by (simp add: paired_def)
next
  case (Cons c cs)
  obtain k tc where c: "c = (k, tc)" by (cases c)
  have p: "paired [ToolInputEnd (tc_id tc), ToolCall (tc_id tc) (tc_name tc) (tc_arguments tc)]"
    unfolding paired_def adjacent_def by (auto intro: exI [of _ "[]"])
  show ?case
  proof (cases "tc_completed tc")
    case True
    then show ?thesis using Cons by (simp add: c Let_def)
  next
    case False
    have "snd (completeToolCalls (c # cs)) =
        [ToolInputEnd (tc_id tc), ToolCall (tc_id tc) (tc_name tc) (tc_arguments tc)] @
        snd (completeToolCalls cs)"
      using False by (simp add: c Let_def)
    then show ?thesis using paired_append [OF p Cons] by simp
  qed
qed

lemma paired_flush: "paired (snd (flush st))"
proof -
  have "paired (snd (completeTextParts (textStarted st) (textEnded st)))"
    by (rule paired_no_calls) (auto dest: completeTextParts_events)
  from paired_append [OF paired_complete this] show ?thesis
    by (simp add: flush_def Let_def)
qed

lemma paired_step: "paired (snd (step mr st x))"
proof (cases x)
  case (Signal r)
  then show ?thesis by (simp add: paired_flush)
next
  case (Fragment f)
  have "paired (snd (processToolCall st f))"
    by (rule paired_no_calls) (auto dest: processToolCall_events)
  then show ?thesis by (simp add: Fragment)
qed (simp_all add: paired_def)

lemma paired_run: "paired (snd (run mr st as))"
proof (induction as arbitrary: st)
  case Nil
  show ?case by (simp add: paired_def)
next
  case (Cons x as)
  show ?case
    using paired_append [OF paired_step Cons] by (simp add: Let_def)
qed

lemma paired_finishStream: "paired (snd (finishStream st))"
proof -
  have "paired [Finish (usage (fst (flush st))) (actualFinishReason (fst (flush st)))]"
    by (simp add: paired_def)
  from paired_append [OF paired_flush this] show ?thesis
    by (simp add: finishStream_def Let_def)
qed

lemma nameOf_initial [simp]: "nameOf initial i = []"
  by (simp add: nameOf_def getOrCreate_def newCall_def initial_def)

lemma paired_stream:
  "paired (snd (run mr st as) @ snd (finishStream (fst (run mr st as))))"
  by (rule paired_append [OF paired_run paired_finishStream])

subsection \<open>Fragments that all arrive before the finish signal\<close>

lemma accumulate_from:
  "(\<And>k. k < length as \<Longrightarrow> b @ concat (take k as) \<noteq> ''{}'') \<Longrightarrow>
   accumulate b as = b @ concat as"
proof (induction as arbitrary: b)
  case Nil
  show ?case by simp
next
  case (Cons a as)
  have b: "b \<noteq> ''{}''"
    using Cons.prems [of 0] by simp
  have "(b @ a) @ concat (take k as) \<noteq> ''{}''" if "k < length as" for k
    using Cons.prems [of "Suc k"] that by simp
  from Cons.IH [OF this] show ?case
    using b by simp
qed

lemma accumulate_sentinelFree:
  assumes "sentinelFree args"
  shows "accumulate ''{}'' args = (if args = [] then ''{}'' else concat args)"
proof (cases args)
  case Nil
  then show ?thesis by simp
next
  case (Cons a as)
  have "a @ concat (take k as) \<noteq> ''{}''" if "k < length as" for k
    using assms that unfolding sentinelFree_def Cons
    by (metis Suc_less_eq concat.simps(2) length_Cons take_Suc_Cons zero_less_Suc)
  from accumulate_from [OF this] show ?thesis
    by (simp add: Cons)
qed

lemma no_signal_step:
  "\<not> isSignal x \<Longrightarrow> e \<in> set (snd (step mr st x)) \<Longrightarrow> \<not> isCall i e \<and> \<not> isEnd i e \<and> \<not> isTextEnd i e"
  by (cases x) (auto dest: processToolCall_events split: if_splits)

lemma no_signal_run:
  "\<forall>x\<in>set as. \<not> isSignal x \<Longrightarrow> e \<in> set (snd (run mr st as)) \<Longrightarrow>
   \<not> isCall i e \<and> \<not> isEnd i e \<and> \<not> isTextEnd i e"
proof (induction as arbitrary: st)
  case Nil
  then show ?case by simp
next
  case (Cons x as)
  from Cons.prems(2) consider "e \<in> set (snd (step mr st x))"
    | "e \<in> set (snd (run mr (fst (step mr st x)) as))"
    by (auto simp: Let_def)
  then show ?case
  proof cases
    case 1
    have "\<not> isSignal x" using Cons.prems(1) by simp
    from no_signal_step [OF this 1] show ?thesis .
  next
    case 2
    have "\<forall>x\<in>set as. \<not> isSignal x" using Cons.prems(1) by simp
    from Cons.IH [OF this 2] show ?thesis .
  qed
qed

lemma usageActions_no_signal: "x \<in> set (usageActions f) \<Longrightarrow> \<not> isSignal x"
  by (auto simp: usageActions_def split: option.splits)

lemma fragmentsBeforeFinish_split:
  "fragmentsBeforeFinish fs \<Longrightarrow>
   \<exists>pre post. concat (map frameActions fs) = pre @ post
     \<and> (\<forall>x\<in>set pre. \<not> isSignal x) \<and> actionFragments post = []"
proof (induction fs)
  case Nil
  show ?case by simp
next
  case (Cons f fs)
  show ?case
  proof (cases "carriesFinish f")
    case True
    with Cons.prems have e: "frameFragments f = []" "streamFragments fs = []"
      by simp_all
    obtain post where post: "frameActions f = usageActions f @ post"
      by (simp add: frameActions_def)
    have "actionFragments (frameActions f) = []"
      using e(1) by (simp add: actionFragments_frame)
    then have "actionFragments post = []"
      by (simp add: post)
    then have "actionFragments (post @ concat (map frameActions fs)) = []"
      using e(2) by (simp add: actionFragments_frames)
    moreover have "concat (map frameActions (f # fs)) =
        usageActions f @ (post @ concat (map frameActions fs))"
      using post by simp
    ultimately show ?thesis
      using usageActions_no_signal by blast
  next
    case False
    with Cons.prems have "fragmentsBeforeFinish fs" by simp
    from Cons.IH [OF this] obtain pre post where
      p: "concat (map frameActions fs) = pre @ post" "\<forall>x\<in>set pre. \<not> isSignal x"
         "actionFragments post = []"
      by blast
    have "\<forall>x\<in>set (frameActions f @ pre). \<not> isSignal x"
      using p(2) frameActions_no_signal [OF False] by auto
    moreover have "concat (map frameActions (f # fs)) = (frameActions f @ pre) @ post"
      using p(1) by simp
    ultimately show ?thesis
      using p(3) by blast
  qed
qed

lemma deliveredArguments_Nil [simp]: "deliveredArguments i m [] = []"
  by (simp add: deliveredArguments_def)

lemma settled_input:
  assumes "concat (map frameActions fs) = pre @ post"
    and "\<forall>x\<in>set pre. \<not> isSignal x"
    and "actionFragments post = []"
    and "ToolCall i n a \<in> set (snd (run mr initial (pre @ post)) @
           snd (finishStream (fst (run mr initial (pre @ post)))))"
  shows "a = accumulate ''{}'' (deliveredArguments i (\<lambda>_. None) (streamFragments fs))"
proof -
  let ?s1 = "fst (run mr initial pre)"
  have w: "wfSession ?s1"
    using run_invariant [OF wfSession_initial counted_initial, of mr pre] by simp
  have fr: "streamFragments fs = actionFragments pre"
    using actionFragments_frames [of fs] assms(1,3) by simp
  have "ToolCall i n a \<notin> set (snd (run mr initial pre))"
    using no_signal_run [OF assms(2), of "ToolCall i n a" mr initial i] by auto
  with assms(4) have "ToolCall i n a \<in> set (snd (run mr ?s1 post) @
      snd (finishStream (fst (run mr ?s1 post))))"
    by (auto simp: run_append Let_def)
  from call_inputs [OF w this] have "a = bufferOf ?s1 i"
    by (auto simp: assms(3))
  then show ?thesis
    using run_buffer [of mr initial pre i] by (simp add: fr)
qed

subsection \<open>The completed flag\<close>

lemma completedIn_other_fields [simp]:
  "completedIn (st \<lparr> actualFinishReason := r \<rparr>) = completedIn st"
  "completedIn (st \<lparr> usage := u \<rparr>) = completedIn st"
  "completedIn (st \<lparr> textStarted := ts \<rparr>) = completedIn st"
  by (simp_all add: completedIn_def fun_eq_iff)

lemma completedIn_tracked: "completedIn st i \<Longrightarrow> map_of (toolCalls st) i \<noteq> None"
  by (cases "map_of (toolCalls st) i") (simp_all add: completedIn_def)

lemma completedIn_step: "completedIn st i \<Longrightarrow> completedIn (fst (step mr st x)) i"
proof (cases x)
  case (Signal r)
  assume "completedIn st i"
  then have "map_of (toolCalls (st \<lparr> actualFinishReason := mr r \<rparr>)) i \<noteq> None"
    by (auto dest: completedIn_tracked)
  then show ?thesis
    by (simp add: Signal completedIn_flush)
qed (simp_all add: completedIn_processToolCall)

lemma completedIn_run: "completedIn st i \<Longrightarrow> completedIn (fst (run mr st as)) i"
  by (induction as arbitrary: st) (simp_all add: Let_def completedIn_step)

lemma completedIn_processFrame:
  "completedIn st i \<Longrightarrow> completedIn (fst (processFrame mr st f)) i"
  by (simp add: processFrame_run completedIn_run)

lemma completedIn_finishStream:
  "completedIn (fst (finishStream st)) i \<longleftrightarrow> map_of (toolCalls st) i \<noteq> None"
  by (simp add: finishStream_def Let_def completedIn_flush)

lemma finishStream_keys [simp]:
  "map fst (toolCalls (fst (finishStream st))) = map fst (toolCalls st)"
  by (simp add: finishStream_def flush_def Let_def)

lemma wfSession_run: "wfSession st \<Longrightarrow> wfSession (fst (run mr st as))"
  by (induction as arbitrary: st) (simp_all add: Let_def wfSession_step)

lemma wfSession_processFrame: "wfSession st \<Longrightarrow> wfSession (fst (processFrame mr st f))"
  by (simp add: processFrame_run wfSession_run)

lemma wfSession_finishStream: "wfSession st \<Longrightarrow> wfSession (fst (finishStream st))"
  by (simp add: finishStream_def Let_def wfSession_flush)

text \<open>Sequences of sessions.\<close>

lemma trace_not_Nil [simp]: "trace mr st fs \<noteq> []"
  by (cases fs) simp_all

lemma hd_trace [simp]: "hd (trace mr st fs) = st"
  by (cases fs) simp_all

lemma last_trace: "last (trace mr st fs) = fst (runFrames mr st fs)"
proof (induction fs arbitrary: st)
  case Nil
  show ?case by simp
next
  case (Cons f fs)
  have "runFrames mr st (f # fs) = runFrames mr st ([f] @ fs)" by simp
  also have "fst \<dots> = fst (runFrames mr (fst (processFrame mr st f)) fs)"
    unfolding runFrames_append by (simp add: Let_def runFrames_def processFrame_run)
  finally show ?case
    by (simp add: Cons)
qed

lemma steady_Cons:
  "ss \<noteq> [] \<Longrightarrow> steady i (s # ss) \<longleftrightarrow> (completedIn s i \<longrightarrow> completedIn (hd ss) i) \<and> steady i ss"
  by (cases ss) simp_all

lemma steady_snoc:
  "ss \<noteq> [] \<Longrightarrow> steady i ss \<Longrightarrow> (completedIn (last ss) i \<longrightarrow> completedIn t i) \<Longrightarrow>
   steady i (ss @ [t])"
proof (induction ss rule: steady.induct)
  case (1 i s u ss)
  then show ?case by simp
qed simp_all

lemma steady_trace: "steady i (trace mr st fs)"
proof (induction fs arbitrary: st)
  case Nil
  show ?case by simp
next
  case (Cons f fs)
  show ?case
    using Cons [of "fst (processFrame mr st f)"]
    by (simp add: steady_Cons completedIn_processFrame)
qed

lemma steady_falls: "steady i ss \<Longrightarrow> falls i ss = 0"
  by (induction i ss rule: falls.induct) auto

lemma steady_rises:
  "steady i ss \<Longrightarrow> ss \<noteq> [] \<Longrightarrow>
   rises i ss = (if \<not> completedIn (hd ss) i \<and> completedIn (last ss) i then 1 else 0)"
proof (induction i ss rule: rises.induct)
  case (1 i s t ss)
  then have st: "steady i (t # ss)" and m: "completedIn s i \<longrightarrow> completedIn t i"
    by simp_all
  have l: "completedIn t i \<longrightarrow> completedIn (last (t # ss)) i"
    using st
  proof (induction ss arbitrary: t)
    case Nil
    show ?case by simp
  next
    case (Cons u ss)
    then show ?case by simp
  qed
  from 1(1) [OF st] have "rises i (t # ss) =
      (if \<not> completedIn t i \<and> completedIn (last (t # ss)) i then 1 else 0)"
    by simp
  then show ?case
    using m l by auto
qed simp_all

lemma wf_trace: "wfSession st \<Longrightarrow> s \<in> set (trace mr st fs) \<Longrightarrow> wfSession s"
proof (induction fs arbitrary: st)
  case Nil
  then show ?case by simp
next
  case (Cons f fs)
  then show ?case
    using wfSession_processFrame [of st mr f] by auto
qed

lemma pump_session:
  "fst (pump parse mr st reads) =
     (if endsNormally reads
      then fst (finishStream (fst (runFrames mr st (readFrames parse reads))))
      else fst (runFrames mr st (readFrames parse reads)))"
proof (induction reads arbitrary: st)
  case Nil
  show ?case by (simp add: Let_def)
next
  case (Cons r reads)
  show ?case
    by (cases r) (simp_all add: Cons processChunk_run runFrames_append Let_def)
qed

lemma wfSession_tracked_id:
  "wfSession s \<Longrightarrow> map_of (toolCalls s) i = Some tc \<Longrightarrow> tc_id tc = i"
  by (auto simp: wfSession_def wfCalls_def dest!: map_of_SomeD)

lemma sessionTrace_props:
  "sessionTrace parse mr reads \<noteq> []"
  "hd (sessionTrace parse mr reads) = initial"
  "last (sessionTrace parse mr reads) = fst (pump parse mr initial reads)"
  by (simp_all add: sessionTrace_def hd_append)

lemma steady_sessionTrace: "steady i (sessionTrace parse mr reads)"
proof -
  let ?ss = "trace mr initial (readFrames parse reads)"
  let ?l = "fst (runFrames mr initial (readFrames parse reads))"
  have "completedIn (last ?ss) i \<longrightarrow> completedIn (fst (pump parse mr initial reads)) i"
    by (auto simp: last_trace pump_session completedIn_finishStream dest: completedIn_tracked)
  from steady_snoc [OF trace_not_Nil steady_trace this] show ?thesis
    by (simp add: sessionTrace_def)
qed

lemma wf_sessionTrace: "s \<in> set (sessionTrace parse mr reads) \<Longrightarrow> wfSession s"
proof -
  assume "s \<in> set (sessionTrace parse mr reads)"
  then consider "s \<in> set (trace mr initial (readFrames parse reads))"
    | "s = fst (pump parse mr initial reads)"
    by (auto simp: sessionTrace_def)
  then show ?thesis
  proof cases
    case 1
    then show ?thesis by (rule wf_trace [OF wfSession_initial])
  next
    case 2
    have "wfSession (fst (runFrames mr initial (readFrames parse reads)))"
      by (simp add: runFrames_def wfSession_run wfSession_initial)
    then show ?thesis
      by (simp add: 2 pump_session wfSession_finishStream)
  qed
qed

lemma completedIn_initial [simp]: "\<not> completedIn initial i"
  by (simp add: completedIn_def initial_def)

subsection \<open>Order of events\<close>

lemma precedes_appendI:
  assumes "precedes P Q xs" "precedes P Q ys"
    and "\<And>x y. x \<in> set xs \<Longrightarrow> Q x \<Longrightarrow> y \<in> set ys \<Longrightarrow> P y \<Longrightarrow> False"
  shows "precedes P Q (xs @ ys)"
  unfolding precedes_def
proof (intro allI impI)
  fix j k
  assume a: "j < length (xs @ ys) \<and> k < length (xs @ ys) \<and> P ((xs @ ys) ! j) \<and> Q ((xs @ ys) ! k)"
  show "j < k"
  proof (cases "j < length xs")
    case jx: True
    show ?thesis
    proof (cases "k < length xs")
      case True
      then show ?thesis
        using a jx assms(1) by (simp add: precedes_def nth_append)
    next
      case False
      then show ?thesis using jx by simp
    qed
  next
    case jy: False
    from a have jb: "j < length xs + length ys" and kb: "k < length xs + length ys"
      by simp_all
    have jl: "j - length xs < length ys"
      using jb jy by linarith
    have pj: "P (ys ! (j - length xs))"
      using a jy by (simp add: nth_append)
    show ?thesis
    proof (cases "k < length xs")
      case True
      have "xs ! k \<in> set xs"
        using True by (rule nth_mem)
      moreover have "Q (xs ! k)"
        using a True by (simp add: nth_append)
      moreover have "ys ! (j - length xs) \<in> set ys"
        using jl by (rule nth_mem)
      ultimately show ?thesis using assms(3) pj by blast
    next
      case False
      have kl: "k - length xs < length ys"
        using kb False by linarith
      have "Q (ys ! (k - length xs))"
        using a False by (simp add: nth_append)
      with jl kl pj have "j - length xs < k - length xs"
        using assms(2) unfolding precedes_def by blast
      then show ?thesis by simp
    qed
  qed
qed

lemma precedes_no_first: "(\<And>e. e \<in> set es \<Longrightarrow> \<not> P e) \<Longrightarrow> precedes P Q es"
  by (auto simp: precedes_def)

lemma precedes_no_second: "(\<And>e. e \<in> set es \<Longrightarrow> \<not> Q e) \<Longrightarrow> precedes P Q es"
  by (auto simp: precedes_def)

lemma precedes_append_no_first:
  "precedes P Q xs \<Longrightarrow> (\<And>e. e \<in> set ys \<Longrightarrow> \<not> P e) \<Longrightarrow> precedes P Q (xs @ ys)"
  by (rule precedes_appendI) (auto intro: precedes_no_first)

lemma precedes_phases:
  "(\<And>e. e \<in> set xs \<Longrightarrow> \<not> Q e) \<Longrightarrow> (\<And>e. e \<in> set ys \<Longrightarrow> \<not> P e) \<Longrightarrow> precedes P Q (xs @ ys)"
  by (rule precedes_appendI) (auto intro: precedes_no_first precedes_no_second)

lemma completeTextParts_started:
  "e \<in> set (snd (completeTextParts ts ended)) \<Longrightarrow> \<exists>k\<in>set ts. e = TextEnd k"
  by (induction ts arbitrary: ended) (auto simp: Let_def split: if_splits)

lemma flush_text:
  "e \<in> set (snd (flush st)) \<Longrightarrow> \<not> isTextStart t e \<and> (isTextPart t e \<longrightarrow> t \<in> set (textStarted st))"
proof -
  assume "e \<in> set (snd (flush st))"
  then consider "e \<in> set (snd (completeToolCalls (toolCalls st)))"
    | "e \<in> set (snd (completeTextParts (textStarted st) (textEnded st)))"
    by (auto simp: flush_def Let_def)
  then show ?thesis
  proof cases
    case 1
    then show ?thesis by (auto dest: completeToolCalls_events)
  next
    case 2
    then show ?thesis by (auto dest: completeTextParts_started)
  qed
qed

lemma flush_textStarted [simp]: "textStarted (fst (flush st)) = textStarted st"
  by (simp add: flush_def Let_def)

lemma textOrder_extend:
  assumes "textOrder t st es"
    and "\<And>e. e \<in> set es' \<Longrightarrow> \<not> isTextStart t e"
    and "\<And>e. e \<in> set es' \<Longrightarrow> isTextPart t e \<Longrightarrow> t \<in> set (textStarted st')"
    and "set (textStarted st) \<subseteq> set (textStarted st')"
    and "t \<in> set (textStarted st') \<Longrightarrow> t \<in> set (textStarted st)"
  shows "textOrder t st' (es @ es')"
proof -
  have "precedes (isTextStart t) (isTextPart t) (es @ es')"
    using assms(1,2) by (auto simp: textOrder_def intro: precedes_append_no_first)
  moreover have "(\<exists>e\<in>set (es @ es'). isTextPart t e) \<longrightarrow> t \<in> set (textStarted st')"
    using assms(1,3,4) by (auto simp: textOrder_def)
  moreover have "t \<in> set (textStarted st') \<longrightarrow> (\<exists>e\<in>set (es @ es'). isTextStart t e)"
    using assms(1,5) by (auto simp: textOrder_def)
  ultimately show ?thesis by (simp add: textOrder_def)
qed

lemma textOrder_step:
  assumes "textOrder t st es"
  shows "textOrder t (fst (step mr st x)) (es @ snd (step mr st x))"
proof (cases x)
  case (SetUsage u)
  then show ?thesis using assms by (simp add: textOrder_def)
next
  case (Signal r)
  let ?st = "st \<lparr> actualFinishReason := mr r \<rparr>"
  have a: "textOrder t ?st es"
    using assms by (simp add: textOrder_def)
  have "textOrder t (fst (flush ?st)) (es @ snd (flush ?st))"
  proof (rule textOrder_extend [OF a])
    fix e assume "e \<in> set (snd (flush ?st))"
    from flush_text [OF this, of t]
    show "\<not> isTextStart t e" and "isTextPart t e \<Longrightarrow> t \<in> set (textStarted (fst (flush ?st)))"
      by simp_all
  qed simp_all
  then show ?thesis by (simp add: Signal)
next
  case (Fragment f)
  have "textOrder t (fst (processToolCall st f)) (es @ snd (processToolCall st f))"
  proof (rule textOrder_extend [OF assms])
    fix e assume e: "e \<in> set (snd (processToolCall st f))"
    from processToolCall_events [OF e]
    show "\<not> isTextStart t e" and "isTextPart t e \<Longrightarrow> t \<in> set (textStarted (fst (processToolCall st f)))"
      by auto
  qed simp_all
  then show ?thesis by (simp add: Fragment)
next
  case (Content c)
  show ?thesis
  proof (cases "''text-0'' \<in> set (textStarted st)")
    case True
    have st': "fst (step mr st x) = st" and es': "snd (step mr st x) = [TextDelta ''text-0'' c]"
      using True by (simp_all add: Content)
    have "textOrder t st (es @ [TextDelta ''text-0'' c])"
    proof (rule textOrder_extend [OF assms])
      fix e assume "e \<in> set [TextDelta ''text-0'' c]"
      then have e: "e = TextDelta ''text-0'' c" by simp
      show "\<not> isTextStart t e" by (simp add: e)
      show "isTextPart t e \<Longrightarrow> t \<in> set (textStarted st)"
        using True by (simp add: e)
    qed simp_all
    then show ?thesis by (simp only: st' es')
  next
    case False
    have st': "fst (step mr st x) = st \<lparr> textStarted := textStarted st @ [''text-0''] \<rparr>"
      and es': "snd (step mr st x) = [TextStart ''text-0'', TextDelta ''text-0'' c]"
      using False by (simp_all add: Content set_add_def)
    let ?st = "st \<lparr> textStarted := textStarted st @ [''text-0''] \<rparr>"
    let ?es = "[TextStart ''text-0'', TextDelta ''text-0'' c]"
    have "textOrder t ?st (es @ ?es)"
    proof (cases "t = ''text-0''")
      case other: False
      show ?thesis
      proof (rule textOrder_extend [OF assms])
        fix e assume "e \<in> set ?es"
        then have e: "e = TextStart ''text-0'' \<or> e = TextDelta ''text-0'' c" by simp
        show "\<not> isTextStart t e" using e other by auto
        show "isTextPart t e \<Longrightarrow> t \<in> set (textStarted ?st)" using e other by auto
      next
        show "set (textStarted st) \<subseteq> set (textStarted ?st)" by auto
        show "t \<in> set (textStarted ?st) \<Longrightarrow> t \<in> set (textStarted st)"
          using other by simp
      qed
    next
      case True
      have none: "\<not> isTextPart t e" if "e \<in> set es" for e
        using assms False True that unfolding textOrder_def by blast
      have p1: "precedes (isTextStart t) (isTextPart t) es"
        using none by (rule precedes_no_second)
      have p2: "precedes (isTextStart t) (isTextPart t) ?es"
        unfolding precedes_def
      proof (intro allI impI)
        fix j k
        assume a: "j < length ?es \<and> k < length ?es \<and> isTextStart t (?es ! j) \<and> isTextPart t (?es ! k)"
        then have "j = 0"
          by (cases j) (auto simp: less_Suc_eq)
        moreover have "k \<noteq> 0"
          using a by (cases k) auto
        ultimately show "j < k" by simp
      qed
      have "precedes (isTextStart t) (isTextPart t) (es @ ?es)"
        using p1 p2
      proof (rule precedes_appendI)
        fix x y assume "x \<in> set es" "isTextPart t x"
        then show False using none by blast
      qed
      then show ?thesis
        unfolding textOrder_def using True by simp
    qed
    then show ?thesis by (simp only: st' es')
  qed
qed

lemma textOrder_run:
  "textOrder t st es \<Longrightarrow> textOrder t (fst (run mr st as)) (es @ snd (run mr st as))"
proof (induction as arbitrary: st es)
  case Nil
  then show ?case by simp
next
  case (Cons x as)
  from Cons.IH [OF textOrder_step [OF Cons.prems]] show ?case
    by (simp add: Let_def)
qed

lemma textOrder_finishStream:
  assumes "textOrder t st es"
  shows "textOrder t (fst (finishStream st)) (es @ snd (finishStream st))"
proof -
  have a: "textOrder t (fst (flush st)) (es @ snd (flush st))"
  proof (rule textOrder_extend [OF assms])
    fix e assume "e \<in> set (snd (flush st))"
    from flush_text [OF this, of t]
    show "\<not> isTextStart t e" and "isTextPart t e \<Longrightarrow> t \<in> set (textStarted (fst (flush st)))"
      by simp_all
  qed simp_all
  let ?f = "Finish (usage (fst (flush st))) (actualFinishReason (fst (flush st)))"
  have "textOrder t (fst (flush st)) ((es @ snd (flush st)) @ [?f])"
  proof (rule textOrder_extend [OF a])
    fix e assume "e \<in> set [?f]"
    then have e: "e = ?f" by simp
    show "\<not> isTextStart t e" by (simp add: e)
    show "isTextPart t e \<Longrightarrow> t \<in> set (textStarted (fst (flush st)))" by (simp add: e)
  qed simp_all
  then show ?thesis
    by (simp add: finishStream_def Let_def)
qed

lemma textOrder_initial: "textOrder t initial []"
  by (simp add: textOrder_def precedes_def initial_def)

lemma textOrder_leads: "textOrder t st es \<Longrightarrow> leads (isTextStart t) (isTextPart t) es"
  unfolding textOrder_def leads_def by blast

lemma occurrences_zero: "occurrences P es = 0 \<Longrightarrow> e \<in> set es \<Longrightarrow> \<not> P e"
  by (induction es) (auto split: if_splits)

lemma precedes_pair: "precedes (isEnd i) (isCall i) [ToolInputEnd k, ToolCall k n a]"
  unfolding precedes_def
proof (intro allI impI)
  fix j l
  assume a: "j < length [ToolInputEnd k, ToolCall k n a] \<and> l < length [ToolInputEnd k, ToolCall k n a]
    \<and> isEnd i ([ToolInputEnd k, ToolCall k n a] ! j) \<and> isCall i ([ToolInputEnd k, ToolCall k n a] ! l)"
  then have "j = 0"
    by (cases j) (auto simp: less_Suc_eq)
  moreover have "l \<noteq> 0"
    using a by (cases l) auto
  ultimately show "j < l" by simp
qed

lemma precedes_complete:
  "wfCalls cs \<Longrightarrow> precedes (isEnd i) (isCall i) (snd (completeToolCalls cs))"
proof (induction cs)
  case Nil
  show ?case by (simp add: precedes_def)
next
  case (Cons c cs)
  obtain k tc where c: "c = (k, tc)" by (cases c)
  from Cons.prems have w: "tc_id tc = k" "k \<notin> fst ` set cs" "wfCalls cs"
    by (simp_all add: c wfCalls_Cons)
  have rest: "precedes (isEnd i) (isCall i) (snd (completeToolCalls cs))"
    using Cons.IH [OF w(3)] .
  show ?case
  proof (cases "tc_completed tc")
    case True
    then show ?thesis using rest by (simp add: c Let_def)
  next
    case False
    have ev: "snd (completeToolCalls (c # cs)) =
        [ToolInputEnd k, ToolCall k (tc_name tc) (tc_arguments tc)] @ snd (completeToolCalls cs)"
      using False w(1) by (simp add: c Let_def)
    have "precedes (isEnd i) (isCall i)
        ([ToolInputEnd k, ToolCall k (tc_name tc) (tc_arguments tc)] @ snd (completeToolCalls cs))"
      using precedes_pair rest
    proof (rule precedes_appendI)
      fix x y
      assume x: "x \<in> set [ToolInputEnd k, ToolCall k (tc_name tc) (tc_arguments tc)]" "isCall i x"
        and y: "y \<in> set (snd (completeToolCalls cs))" "isEnd i y"
      from x have ik: "i = k" by auto
      from completeToolCalls_about [OF y(1)] obtain k' tc' where
        t: "(k', tc') \<in> set cs" "eventCall y = Some (tc_id tc')"
        by blast
      have "tc_id tc' = k'"
        using w(3) t(1) by (auto simp: wfCalls_def)
      with t(2) isEnd_eventCall [OF y(2)] have "k' = i" by simp
      with t(1) have "i \<in> fst ` set cs" by force
      with w(2) ik show False by simp
    qed
    then show ?thesis by (simp only: ev)
  qed
qed

lemma precedes_flush:
  assumes "wfSession st"
  shows "precedes (isEnd i) (isCall i) (snd (flush st))"
proof -
  have "precedes (isEnd i) (isCall i)
      (snd (completeToolCalls (toolCalls st)) @ snd (completeTextParts (textStarted st) (textEnded st)))"
  proof (rule precedes_append_no_first)
    show "precedes (isEnd i) (isCall i) (snd (completeToolCalls (toolCalls st)))"
      using assms by (simp add: wfSession_def precedes_complete)
  next
    fix e assume "e \<in> set (snd (completeTextParts (textStarted st) (textEnded st)))"
    then show "\<not> isEnd i e" by (auto dest: completeTextParts_events)
  qed
  then show ?thesis by (simp add: flush_def Let_def)
qed

lemma flush_end_not_completed:
  assumes "wfSession st" "e \<in> set (snd (flush st))" "isEnd i e"
  shows "\<not> completedIn st i"
proof
  assume c: "completedIn st i"
  have "occurrences (isEnd i) (snd (completeToolCalls (toolCalls st))) = 0"
    using completeToolCalls_occurrences [of "toolCalls st" i] assms(1) c
    by (cases "map_of (toolCalls st) i") (simp_all add: wfSession_def completedIn_def)
  moreover have "occurrences (isEnd i) (snd (completeTextParts (textStarted st) (textEnded st))) = 0"
    by (rule occurrences_none) (auto dest: completeTextParts_events)
  ultimately have "occurrences (isEnd i) (snd (flush st)) = 0"
    by (simp add: flush_occurrences)
  from occurrences_zero [OF this assms(2)] assms(3) show False by simp
qed

lemma endCall_flush:
  assumes "wfSession st" "counted st es" "precedes (isEnd i) (isCall i) es"
  shows "precedes (isEnd i) (isCall i) (es @ snd (flush st))"
  using assms(3) precedes_flush [OF assms(1)]
proof (rule precedes_appendI)
  fix x y
  assume x: "x \<in> set es" "isCall i x" and y: "y \<in> set (snd (flush st))" "isEnd i y"
  from flush_end_not_completed [OF assms(1) y] have "occurrences (isCall i) es = 0"
    using assms(2) by (simp add: counted_def)
  from occurrences_zero [OF this x(1)] x(2) show False by simp
qed

lemma endCall_step:
  assumes "wfSession st" "counted st es" "precedes (isEnd i) (isCall i) es"
  shows "precedes (isEnd i) (isCall i) (es @ snd (step mr st x))"
proof (cases x)
  case (Signal r)
  let ?st = "st \<lparr> actualFinishReason := mr r \<rparr>"
  have "wfSession ?st" using assms(1) by (simp add: wfSession_def)
  moreover have "counted ?st es" using assms(2) by (simp add: counted_def)
  ultimately have "precedes (isEnd i) (isCall i) (es @ snd (flush ?st))"
    using assms(3) by (rule endCall_flush)
  then show ?thesis by (simp add: Signal)
next
  case (Fragment f)
  have "precedes (isEnd i) (isCall i) (es @ snd (processToolCall st f))"
    using assms(3)
  proof (rule precedes_append_no_first)
    fix e assume "e \<in> set (snd (processToolCall st f))"
    from processToolCall_events [OF this] show "\<not> isEnd i e" by auto
  qed
  then show ?thesis by (simp add: Fragment)
next
  case (SetUsage u)
  then show ?thesis using assms(3) by simp
next
  case (Content c)
  have "precedes (isEnd i) (isCall i) (es @ snd (step mr st (Content c)))"
    using assms(3)
  proof (rule precedes_append_no_first)
    fix e assume "e \<in> set (snd (step mr st (Content c)))"
    then show "\<not> isEnd i e" by (auto split: if_splits)
  qed
  then show ?thesis by (simp only: Content)
qed

lemma endCall_run:
  "wfSession st \<Longrightarrow> counted st es \<Longrightarrow> precedes (isEnd i) (isCall i) es \<Longrightarrow>
   precedes (isEnd i) (isCall i) (es @ snd (run mr st as))"
proof (induction as arbitrary: st es)
  case Nil
  then show ?case by simp
next
  case (Cons x as)
  have "wfSession (fst (step mr st x))"
    using Cons.prems(1) by (rule wfSession_step)
  moreover have "counted (fst (step mr st x)) (es @ snd (step mr st x))"
    using Cons.prems(1,2) by (rule counted_step)
  moreover have "precedes (isEnd i) (isCall i) (es @ snd (step mr st x))"
    using Cons.prems by (rule endCall_step)
  ultimately have "precedes (isEnd i) (isCall i)
      ((es @ snd (step mr st x)) @ snd (run mr (fst (step mr st x)) as))"
    by (rule Cons.IH)
  then show ?case by (simp add: Let_def)
qed

lemma endCall_stream:
  "precedes (isEnd i) (isCall i)
     (snd (run mr initial as) @ snd (finishStream (fst (run mr initial as))))"
proof -
  let ?r = "run mr initial as"
  have p0: "precedes (isEnd i) (isCall i) []"
    by (simp add: precedes_def)
  have inv: "wfSession (fst ?r)" "counted (fst ?r) (snd ?r)"
    using run_invariant [OF wfSession_initial counted_initial, of mr as] by simp_all
  have "precedes (isEnd i) (isCall i) (snd ?r)"
    using endCall_run [OF wfSession_initial counted_initial p0, of mr as] by simp
  with inv have "precedes (isEnd i) (isCall i) (snd ?r @ snd (flush (fst ?r)))"
    by (rule endCall_flush)
  then have "precedes (isEnd i) (isCall i)
      ((snd ?r @ snd (flush (fst ?r))) @
       [Finish (usage (fst (flush (fst ?r)))) (actualFinishReason (fst (flush (fst ?r))))])"
    by (rule precedes_append_no_first) simp
  then show ?thesis by (simp add: finishStream_def Let_def)
qed

lemma paired_leads:
  assumes "paired es" "precedes (isEnd i) (isCall i) es"
  shows "leads (isEnd i) (isCall i) es"
  unfolding leads_def
proof (intro conjI impI)
  show "precedes (isEnd i) (isCall i) es" by (rule assms(2))
  assume "\<exists>e\<in>set es. isCall i e"
  then obtain e where e: "e \<in> set es" "isCall i e" by blast
  from isCall_cases [OF e(2)] obtain n a where "e = ToolCall i n a" by blast
  with e(1) assms(1) have "adjacent (ToolInputEnd i) (ToolCall i n a) es"
    unfolding paired_def by blast
  then have "ToolInputEnd i \<in> set es"
    unfolding adjacent_def by auto
  then show "\<exists>e\<in>set es. isEnd i e"
    by (intro bexI [of _ "ToolInputEnd i"]) simp_all
qed

subsection \<open>Streams that are quiet after the finish signal\<close>

lemma quietFrame_actions:
  assumes "quietFrame f" "x \<in> set (frameActions f)"
  shows "isSignal x \<or> isSetUsage x"
proof -
  have u: "y \<in> set (usageActions f) \<Longrightarrow> isSetUsage y" for y
    by (auto simp: usageActions_def split: option.splits)
  show ?thesis
  proof (cases "firstChoice f")
    case None
    then show ?thesis using assms(2) u by (simp add: frameActions_def)
  next
    case (Some c)
    have s: "y \<in> set (finishActions c) \<Longrightarrow> isSignal y" for y
      by (auto simp: finishActions_def split: option.splits if_splits)
    have "deltaActions c = []"
    proof (cases "delta c")
      case None
      then show ?thesis by (simp add: deltaActions_def)
    next
      case d: (Some d)
      have "\<not> truthy (content d)"
        using assms(1) Some d by (simp add: quietFrame_def carriesContent_def)
      then have "contentActions d = []"
        by (cases "content d") (simp_all add: contentActions_def)
      moreover have "fragmentActions d = []"
        using assms(1) Some d
        by (cases "tool_calls d") (simp_all add: quietFrame_def frameFragments_def fragmentActions_def)
      ultimately show ?thesis by (simp add: deltaActions_def d)
    qed
    then show ?thesis
      using assms(2) u s by (auto simp: frameActions_def Some)
  qed
qed

lemma quietAfterFinish_split:
  "quietAfterFinish fs \<Longrightarrow>
   \<exists>pre post. concat (map frameActions fs) = pre @ post
     \<and> (\<forall>x\<in>set pre. \<not> isSignal x) \<and> (\<forall>x\<in>set post. isSignal x \<or> isSetUsage x)"
proof (induction fs)
  case Nil
  show ?case by simp
next
  case (Cons f fs)
  show ?case
  proof (cases "carriesFinish f")
    case True
    with Cons.prems have q: "quietFrame f" "list_all quietFrame fs"
      by simp_all
    have "\<forall>x\<in>set (concat (map frameActions (f # fs))). isSignal x \<or> isSetUsage x"
      using q quietFrame_actions by (auto simp: list_all_iff)
    moreover have "concat (map frameActions (f # fs)) = [] @ concat (map frameActions (f # fs))"
      by simp
    ultimately show ?thesis
      by (metis empty_iff empty_set)
  next
    case False
    with Cons.prems have "quietAfterFinish fs" by simp
    from Cons.IH [OF this] obtain pre post where
      p: "concat (map frameActions fs) = pre @ post" "\<forall>x\<in>set pre. \<not> isSignal x"
         "\<forall>x\<in>set post. isSignal x \<or> isSetUsage x"
      by blast
    have "\<forall>x\<in>set (frameActions f @ pre). \<not> isSignal x"
      using p(2) frameActions_no_signal [OF False] by auto
    moreover have "concat (map frameActions (f # fs)) = (frameActions f @ pre) @ post"
      using p(1) by simp
    ultimately show ?thesis
      using p(3) by blast
  qed
qed

lemma closing_run:
  "\<forall>x\<in>set as. isSignal x \<or> isSetUsage x \<Longrightarrow> e \<in> set (snd (run mr st as)) \<Longrightarrow> closing e"
proof (induction as arbitrary: st)
  case Nil
  then show ?case by simp
next
  case (Cons x as)
  from Cons.prems(2) consider "e \<in> set (snd (step mr st x))"
    | "e \<in> set (snd (run mr (fst (step mr st x)) as))"
    by (auto simp: Let_def)
  then show ?case
  proof cases
    case 1
    have "isSignal x \<or> isSetUsage x" using Cons.prems(1) by simp
    then show ?thesis
      using 1 by (cases x) (auto simp: closing_def dest: flush_events)
  next
    case 2
    have "\<forall>x\<in>set as. isSignal x \<or> isSetUsage x" using Cons.prems(1) by simp
    from Cons.IH [OF this 2] show ?thesis .
  qed
qed

lemma closing_finishStream: "e \<in> set (snd (finishStream st)) \<Longrightarrow> closing e"
  by (auto simp: finishStream_def Let_def closing_def dest: flush_events)

lemma closing_not_opening:
  "closing e \<Longrightarrow> \<not> isStart i e \<and> \<not> isDelta i e \<and> \<not> isTextDelta t e \<and> \<not> isTextStart t e"
  by (auto simp: closing_def) (cases e; simp)+

lemma quiet_phases:
  assumes "quietAfterFinish fs"
  shows "\<exists>xs ys. snd (run mr initial (concat (map frameActions fs))) @
           snd (finishStream (fst (run mr initial (concat (map frameActions fs))))) = xs @ ys
         \<and> (\<forall>e\<in>set xs. \<forall>i. \<not> isCompletion i e \<and> \<not> isTextEnd i e)
         \<and> (\<forall>e\<in>set ys. closing e)"
proof -
  from quietAfterFinish_split [OF assms] obtain pre post where
    p: "concat (map frameActions fs) = pre @ post" "\<forall>x\<in>set pre. \<not> isSignal x"
       "\<forall>x\<in>set post. isSignal x \<or> isSetUsage x"
    by blast
  let ?s1 = "fst (run mr initial pre)"
  let ?xs = "snd (run mr initial pre)"
  let ?ys = "snd (run mr ?s1 post) @ snd (finishStream (fst (run mr ?s1 post)))"
  have "snd (run mr initial (pre @ post)) @ snd (finishStream (fst (run mr initial (pre @ post))))
      = ?xs @ ?ys"
    by (simp add: run_append Let_def)
  moreover have "\<forall>e\<in>set ?xs. \<forall>i. \<not> isCompletion i e \<and> \<not> isTextEnd i e"
    using no_signal_run [OF p(2)] by auto
  moreover have "\<forall>e\<in>set ?ys. closing e"
    using closing_run [OF p(3)] closing_finishStream by auto
  ultimately show ?thesis
    unfolding p(1) by blast
qed

subsection \<open>Calls that are named by their first fragment\<close>

lemma keys_flush [simp]: "fst ` set (toolCalls (fst (flush st))) = fst ` set (toolCalls st)"
proof -
  have "map fst (toolCalls (fst (flush st))) = map fst (toolCalls st)"
    by (simp add: flush_def Let_def)
  then show ?thesis by (metis list.set_map)
qed

lemma keys_resolved:
  "resolveToolId (indexToId st) f = Some (k, m) \<Longrightarrow>
   fst ` set (toolCalls (fst (processToolCall st f))) = insert k (fst ` set (toolCalls st))"
  by (simp add: processToolCall_resolved)

lemma flush_about:
  assumes "wfSession st" "e \<in> set (snd (flush st))" "eventCall e = Some i"
  shows "i \<in> fst ` set (toolCalls st)"
proof -
  have "e \<in> set (snd (completeToolCalls (toolCalls st)))"
    using assms(2,3) by (auto simp: flush_def Let_def dest: completeTextParts_events)
  from completeToolCalls_about [OF this] obtain k tc where
    t: "(k, tc) \<in> set (toolCalls st)" "eventCall e = Some (tc_id tc)"
    by blast
  have "tc_id tc = k"
    using assms(1) t(1) by (auto simp: wfSession_def wfCalls_def)
  with t assms(3) have "(i, tc) \<in> set (toolCalls st)" by simp
  then show ?thesis by force
qed

lemma nameAfter_named: "nm \<noteq> [] \<Longrightarrow> nameAfter nm ns = nm"
  by (induction ns) simp_all

lemma isToolPart_eventCall: "isToolPart i e \<Longrightarrow> eventCall e = Some i"
  by (cases e) simp_all

lemma startFirst_extend:
  assumes "startFirst i st es"
    and "\<And>e. e \<in> set es' \<Longrightarrow> \<not> isStart i e"
    and "\<And>e. e \<in> set es' \<Longrightarrow> eventCall e = Some i \<Longrightarrow> i \<in> fst ` set (toolCalls st')"
    and "fst ` set (toolCalls st) \<subseteq> fst ` set (toolCalls st')"
    and "i \<in> fst ` set (toolCalls st') \<Longrightarrow> i \<in> fst ` set (toolCalls st)"
    and "i \<in> fst ` set (toolCalls st) \<Longrightarrow> nameOf st' i = nameOf st i"
  shows "startFirst i st' (es @ es')"
proof -
  have "precedes (isStart i) (isToolPart i) (es @ es')"
    using assms(1) unfolding startFirst_def
    by (intro precedes_append_no_first assms(2)) simp_all
  moreover have "(\<exists>e\<in>set (es @ es'). eventCall e = Some i) \<longrightarrow> i \<in> fst ` set (toolCalls st')"
    using assms(1,3,4) unfolding startFirst_def by auto
  moreover have "i \<in> fst ` set (toolCalls st') \<longrightarrow>
      (\<exists>e\<in>set (es @ es'). isStart i e) \<and> nameOf st' i \<noteq> []"
    using assms(1,5,6) unfolding startFirst_def by auto
  ultimately show ?thesis
    unfolding startFirst_def by blast
qed

lemma startFirst_flush:
  assumes "wfSession st" "startFirst i st es"
  shows "startFirst i (fst (flush st)) (es @ snd (flush st))"
proof (rule startFirst_extend [OF assms(2)])
  fix e assume e: "e \<in> set (snd (flush st))"
  from flush_events [OF e] show "\<not> isStart i e" by auto
  assume "eventCall e = Some i"
  from flush_about [OF assms(1) e this] show "i \<in> fst ` set (toolCalls (fst (flush st)))"
    by simp
qed simp_all

lemma startFirst_other_fields:
  "startFirst i (st \<lparr> actualFinishReason := r \<rparr>) es = startFirst i st es"
  "startFirst i (st \<lparr> usage := u \<rparr>) es = startFirst i st es"
  "startFirst i (st \<lparr> textStarted := ts \<rparr>) es = startFirst i st es"
  by (simp_all add: startFirst_def)

lemma resolved_events_about:
  assumes "resolveToolId (indexToId st) f = Some (k, m)" "e \<in> set (snd (processToolCall st f))"
  shows "eventCall e = Some k"
  using resolved_attributed(1) [OF assms(1)] assms(2) unfolding attributed_def by blast

lemma startFirst_fragment:
  assumes "wfSession st" "startFirst i st es"
    and "\<And>m. resolveToolId (indexToId st) f = Some (i, m) \<Longrightarrow>
           i \<notin> fst ` set (toolCalls st) \<Longrightarrow> truthy (fragName f)"
  shows "startFirst i (fst (processToolCall st f)) (es @ snd (processToolCall st f))"
proof (cases "resolveToolId (indexToId st) f")
  case None
  then show ?thesis using assms(2) by (simp add: processToolCall_dropped)
next
  case (Some p)
  obtain k m where p: "p = (k, m)" by (cases p)
  note r = Some [unfolded p]
  note keys = keys_resolved [OF r]
  show ?thesis
  proof (cases "k = i")
    case False
    show ?thesis
    proof (rule startFirst_extend [OF assms(2)])
      fix e assume e: "e \<in> set (snd (processToolCall st f))"
      from resolved_events_about [OF r e] have k: "eventCall e = Some k" .
      show "\<not> isStart i e"
        using k False by (auto dest: isStart_eventCall)
      show "eventCall e = Some i \<Longrightarrow> i \<in> fst ` set (toolCalls (fst (processToolCall st f)))"
        using k False by simp
    next
      show "fst ` set (toolCalls st) \<subseteq> fst ` set (toolCalls (fst (processToolCall st f)))"
        unfolding keys by auto
      show "i \<in> fst ` set (toolCalls (fst (processToolCall st f))) \<Longrightarrow> i \<in> fst ` set (toolCalls st)"
        unfolding keys using False by auto
      show "nameOf (fst (processToolCall st f)) i = nameOf st i"
        using False by (simp add: resolved_step_name [OF r])
    qed
  next
    case True
    note r = r [unfolded True]
    note keys = keys [unfolded True]
    let ?tc0 = "getOrCreate (toolCalls st) i"
    have ev: "snd (processToolCall st f) =
        snd (applyName i f ?tc0) @ snd (applyArguments i f (fst (applyName i f ?tc0)))"
      by (simp add: processToolCall_resolved [OF r])
    show ?thesis
    proof (cases "i \<in> fst ` set (toolCalls st)")
      case tracked: True
      have nm: "nameOf st i \<noteq> []"
        using assms(2) tracked unfolding startFirst_def by blast
      then have "snd (applyName i f ?tc0) = []"
        by (simp add: applyName_def nameOf_def split: option.splits)
      then have ev': "snd (processToolCall st f) = snd (applyArguments i f (fst (applyName i f ?tc0)))"
        by (simp add: ev)
      show ?thesis
      proof (rule startFirst_extend [OF assms(2)])
        fix e assume e: "e \<in> set (snd (processToolCall st f))"
        then have "isDelta i e"
          unfolding ev' by (rule applyArguments_events)
        then show "\<not> isStart i e" by (cases e) simp_all
        show "i \<in> fst ` set (toolCalls (fst (processToolCall st f)))"
          unfolding keys by simp
      next
        show "fst ` set (toolCalls st) \<subseteq> fst ` set (toolCalls (fst (processToolCall st f)))"
          unfolding keys by auto
        show "i \<in> fst ` set (toolCalls st)"
          by (rule tracked)
        show "nameOf (fst (processToolCall st f)) i = nameOf st i"
          using nm by (simp add: resolved_step_name [OF r] nameAfter_named)
      qed
    next
      case fresh: False
      from assms(3) [OF r fresh] obtain n where n: "fragName f = Some n" "n \<noteq> []"
        by (auto simp: truthy_iff)
      have "map_of (toolCalls st) i = None"
        using fresh by (simp add: map_of_eq_None_iff)
      then have tc0: "?tc0 = newCall i"
        by (simp add: getOrCreate_def)
      have st: "snd (applyName i f ?tc0) = [ToolInputStart i n]"
        using n by (simp add: applyName_def tc0 newCall_def)
      let ?ds = "snd (applyArguments i f (fst (applyName i f ?tc0)))"
      have ev': "snd (processToolCall st f) = ToolInputStart i n # ?ds"
        by (simp add: ev st)
      have none: "eventCall e \<noteq> Some i" if "e \<in> set es" for e
        using assms(2) fresh that unfolding startFirst_def by blast
      have d: "isDelta i e" if "e \<in> set ?ds" for e
        using that by (rule applyArguments_events)
      have p1: "precedes (isStart i) (isToolPart i) es"
        using assms(2) unfolding startFirst_def by blast
      have p2: "precedes (isStart i) (isToolPart i) ([ToolInputStart i n] @ ?ds)"
      proof (rule precedes_appendI)
        show "precedes (isStart i) (isToolPart i) [ToolInputStart i n]"
          by (rule precedes_no_second) simp
        show "precedes (isStart i) (isToolPart i) ?ds"
        proof (rule precedes_no_first)
          fix e assume "e \<in> set ?ds"
          from d [OF this] show "\<not> isStart i e" by (cases e) simp_all
        qed
      next
        fix x y assume "x \<in> set [ToolInputStart i n]" "isToolPart i x"
        then show False by auto
      qed
      have "precedes (isStart i) (isToolPart i) (es @ [ToolInputStart i n] @ ?ds)"
        using p1 p2
      proof (rule precedes_appendI)
        fix x y assume "x \<in> set es" "isToolPart i x"
        then show False using none isToolPart_eventCall by blast
      qed
      then have a: "precedes (isStart i) (isToolPart i) (es @ snd (processToolCall st f))"
        by (simp add: ev')
      have b: "i \<in> fst ` set (toolCalls (fst (processToolCall st f)))"
        unfolding keys by simp
      have c: "\<exists>e\<in>set (es @ snd (processToolCall st f)). isStart i e"
        unfolding ev' by (intro bexI [of _ "ToolInputStart i n"]) simp_all
      have "nameOf st i = []"
        by (simp add: nameOf_def tc0 newCall_def)
      then have "nameOf (fst (processToolCall st f)) i = n"
        using n by (simp add: resolved_step_name [OF r] namesOf_def)
      then have e: "nameOf (fst (processToolCall st f)) i \<noteq> []"
        using n(2) by simp
      show ?thesis
        unfolding startFirst_def using a b c e by blast
    qed
  qed
qed

lemma startFirst_step:
  assumes "wfSession st" "startFirst i st es"
    and "\<And>f m. x = Fragment f \<Longrightarrow> resolveToolId (indexToId st) f = Some (i, m) \<Longrightarrow>
           i \<notin> fst ` set (toolCalls st) \<Longrightarrow> truthy (fragName f)"
  shows "startFirst i (fst (step mr st x)) (es @ snd (step mr st x))"
proof (cases x)
  case (SetUsage u)
  then show ?thesis using assms(2) by (simp add: startFirst_other_fields)
next
  case (Signal r)
  let ?st = "st \<lparr> actualFinishReason := mr r \<rparr>"
  have "wfSession ?st" using assms(1) by (simp add: wfSession_def)
  moreover have "startFirst i ?st es" using assms(2) by (simp add: startFirst_other_fields)
  ultimately have "startFirst i (fst (flush ?st)) (es @ snd (flush ?st))"
    by (rule startFirst_flush)
  then show ?thesis by (simp add: Signal)
next
  case (Fragment f)
  have "startFirst i (fst (processToolCall st f)) (es @ snd (processToolCall st f))"
    using assms(1,2)
  proof (rule startFirst_fragment)
    fix m assume "resolveToolId (indexToId st) f = Some (i, m)" "i \<notin> fst ` set (toolCalls st)"
    then show "truthy (fragName f)" using assms(3) Fragment by blast
  qed
  then show ?thesis by (simp add: Fragment)
next
  case (Content c)
  have "startFirst i (fst (step mr st (Content c))) (es @ snd (step mr st (Content c)))"
  proof (rule startFirst_extend [OF assms(2)])
    fix e assume e: "e \<in> set (snd (step mr st (Content c)))"
    then show "\<not> isStart i e" by (auto split: if_splits)
    assume "eventCall e = Some i"
    then show "i \<in> fst ` set (toolCalls (fst (step mr st (Content c))))"
      using e by (auto split: if_splits)
  next
    show "nameOf (fst (step mr st (Content c))) i = nameOf st i"
      by simp
  qed (simp_all split: if_splits)
  then show ?thesis by (simp only: Content)
qed

lemma step_keys_other:
  "\<not> (\<exists>f. x = Fragment f) \<Longrightarrow>
   fst ` set (toolCalls (fst (step mr st x))) = fst ` set (toolCalls st)
   \<and> indexToId (fst (step mr st x)) = indexToId st"
  by (cases x) simp_all

lemma startFirst_run:
  "wfSession st \<Longrightarrow> startFirst i st es \<Longrightarrow>
   namedFirst seen (delivered (indexToId st) (actionFragments as)) \<Longrightarrow>
   (i \<in> set seen \<longleftrightarrow> i \<in> fst ` set (toolCalls st)) \<Longrightarrow>
   startFirst i (fst (run mr st as)) (es @ snd (run mr st as))"
proof (induction as arbitrary: st es seen)
  case Nil
  then show ?case by simp
next
  case (Cons x as)
  let ?st1 = "fst (step mr st x)"
  have w1: "wfSession ?st1"
    using Cons.prems(1) by (rule wfSession_step)
  have s1: "startFirst i ?st1 (es @ snd (step mr st x))"
    using Cons.prems(1,2)
  proof (rule startFirst_step)
    fix f m
    assume x: "x = Fragment f" and r: "resolveToolId (indexToId st) f = Some (i, m)"
      and fresh: "i \<notin> fst ` set (toolCalls st)"
    from Cons.prems(3) have "i \<in> set seen \<or> truthy (fragName f)"
      by (simp add: x r)
    with fresh Cons.prems(4) show "truthy (fragName f)" by blast
  qed
  have "\<exists>seen'. namedFirst seen' (delivered (indexToId ?st1) (actionFragments as))
      \<and> (i \<in> set seen' \<longleftrightarrow> i \<in> fst ` set (toolCalls ?st1))"
  proof (cases "\<exists>f. x = Fragment f")
    case False
    have "actionFragments (x # as) = actionFragments as"
      using False by (cases x) simp_all
    then show ?thesis
      using Cons.prems(3,4) step_keys_other [OF False, of mr st] by auto
  next
    case True
    then obtain f where x: "x = Fragment f" by blast
    show ?thesis
    proof (cases "resolveToolId (indexToId st) f")
      case None
      then have "?st1 = st" by (simp add: x processToolCall_dropped)
      then show ?thesis
        using Cons.prems(3,4) None by (auto simp: x)
    next
      case (Some p)
      obtain k m where p: "p = (k, m)" by (cases p)
      note r = Some [unfolded p]
      have m: "indexToId ?st1 = m"
        by (simp add: x processToolCall_resolved [OF r])
      have keys: "fst ` set (toolCalls ?st1) = insert k (fst ` set (toolCalls st))"
        using keys_resolved [OF r] by (simp add: x)
      have "namedFirst (k # seen) (delivered m (actionFragments as))"
        using Cons.prems(3) by (simp add: x r)
      moreover have "i \<in> set (k # seen) \<longleftrightarrow> i \<in> fst ` set (toolCalls ?st1)"
        unfolding keys using Cons.prems(4) by auto
      ultimately show ?thesis
        unfolding m by blast
    qed
  qed
  then obtain seen' where
    n: "namedFirst seen' (delivered (indexToId ?st1) (actionFragments as))"
       "i \<in> set seen' \<longleftrightarrow> i \<in> fst ` set (toolCalls ?st1)"
    by blast
  from Cons.IH [OF w1 s1 n] show ?case
    by (simp add: Let_def)
qed

lemma startFirst_finishStream:
  assumes "wfSession st" "startFirst i st es"
  shows "startFirst i (fst (finishStream st)) (es @ snd (finishStream st))"
proof -
  have a: "startFirst i (fst (flush st)) (es @ snd (flush st))"
    using assms by (rule startFirst_flush)
  let ?f = "Finish (usage (fst (flush st))) (actualFinishReason (fst (flush st)))"
  have "startFirst i (fst (flush st)) ((es @ snd (flush st)) @ [?f])"
    by (rule startFirst_extend [OF a]) simp_all
  then show ?thesis
    by (simp add: finishStream_def Let_def)
qed

lemma startFirst_initial: "startFirst i initial []"
  by (simp add: startFirst_def precedes_def initial_def)

lemma startFirst_leads: "startFirst i st es \<Longrightarrow> leads (isStart i) (isToolPart i) es"
  unfolding startFirst_def leads_def using isToolPart_eventCall by blast

lemma not_precedesI:
  "j < length es \<Longrightarrow> k < length es \<Longrightarrow> P (es ! j) \<Longrightarrow> Q (es ! k) \<Longrightarrow> \<not> j < k \<Longrightarrow>
   \<not> precedes P Q es"
  unfolding precedes_def by blast

subsection \<open>The fragments that reach a call before it is flushed\<close>

lemma occurrences_pos: "0 < occurrences P es \<Longrightarrow> \<exists>e\<in>set es. P e"
proof (rule ccontr)
  assume p: "0 < occurrences P es" and n: "\<not> (\<exists>e\<in>set es. P e)"
  have "occurrences P es = 0"
    by (rule occurrences_none) (use n in blast)
  with p show False by simp
qed

lemma flush_emits:
  assumes "wfSession st" "i \<in> fst ` set (toolCalls st)" "\<not> completedIn st i"
  shows "\<exists>n. ToolCall i n (bufferOf st i) \<in> set (snd (flush st))"
proof -
  from assms(2) obtain tc where tc: "map_of (toolCalls st) i = Some tc"
    by (metis map_of_eq_None_iff not_Some_eq)
  with assms(3) have "\<not> tc_completed tc"
    by (simp add: completedIn_def)
  then have "occurrences (isCall i) (snd (completeToolCalls (toolCalls st))) = 1"
    using completeToolCalls_occurrences [of "toolCalls st" i] assms(1) tc
    by (simp add: wfSession_def)
  then have "0 < occurrences (isCall i) (snd (flush st))"
    by (simp add: flush_occurrences)
  from occurrences_pos [OF this] obtain e where e: "e \<in> set (snd (flush st))" "isCall i e"
    by blast
  from isCall_cases [OF e(2)] obtain n a where c: "e = ToolCall i n a"
    by blast
  from flush_calls [OF assms(1) e(1) [unfolded c]] have "a = bufferOf st i"
    by simp
  with e(1) c show ?thesis by blast
qed

lemma not_completed_step:
  assumes "\<not> completedIn st i" "\<not> isSignal x \<or> i \<notin> fst ` set (toolCalls st)"
  shows "\<not> completedIn (fst (step mr st x)) i"
proof (cases x)
  case (Signal r)
  with assms(2) have "map_of (toolCalls (st \<lparr> actualFinishReason := mr r \<rparr>)) i = None"
    by (simp add: map_of_eq_None_iff)
  then show ?thesis
    by (simp add: Signal completedIn_flush)
qed (use assms(1) in \<open>simp_all add: completedIn_processToolCall\<close>)

lemma not_completed_run:
  "\<not> completedIn st i \<Longrightarrow> \<forall>x\<in>set as. \<not> isSignal x \<Longrightarrow> \<not> completedIn (fst (run mr st as)) i"
proof (induction as arbitrary: st)
  case Nil
  then show ?case by simp
next
  case (Cons x as)
  have "\<not> completedIn (fst (step mr st x)) i"
    using Cons.prems by (intro not_completed_step) simp_all
  moreover have "\<forall>x\<in>set as. \<not> isSignal x"
    using Cons.prems(2) by simp
  ultimately have "\<not> completedIn (fst (run mr (fst (step mr st x)) as)) i"
    by (rule Cons.IH)
  then show ?case by (simp add: Let_def)
qed

lemma keys_step_eq:
  "fst ` set (toolCalls (fst (step mr st x))) =
     fst ` set (toolCalls st) \<union> fst ` set (delivered (indexToId st) (actionFragments [x]))"
proof (cases x)
  case (Fragment f)
  show ?thesis
  proof (cases "resolveToolId (indexToId st) f")
    case None
    then show ?thesis
      by (simp add: Fragment processToolCall_dropped)
  next
    case (Some p)
    obtain k m where p: "p = (k, m)" by (cases p)
    show ?thesis
      using keys_resolved [OF Some [unfolded p]] by (simp add: Fragment Some p)
  qed
qed simp_all

lemma keys_run_eq:
  "fst ` set (toolCalls (fst (run mr st as))) =
     fst ` set (toolCalls st) \<union> fst ` set (delivered (indexToId st) (actionFragments as))"
proof (induction as arbitrary: st)
  case Nil
  show ?case by simp
next
  case (Cons x as)
  let ?st1 = "fst (step mr st x)"
  have s: "actionFragments (x # as) = actionFragments [x] @ actionFragments as"
    using actionFragments_append [of "[x]" as] by simp
  have m: "indexToId ?st1 = indexAfter (indexToId st) (actionFragments [x])"
    using step_buffer [of mr st x] by simp
  have "fst ` set (toolCalls (fst (run mr ?st1 as))) =
      fst ` set (toolCalls ?st1) \<union> fst ` set (delivered (indexToId ?st1) (actionFragments as))"
    by (rule Cons.IH)
  then have "fst ` set (toolCalls (fst (run mr ?st1 as))) =
      (fst ` set (toolCalls st) \<union> fst ` set (delivered (indexToId st) (actionFragments [x])))
      \<union> fst ` set (delivered (indexAfter (indexToId st) (actionFragments [x])) (actionFragments as))"
    unfolding m keys_step_eq .
  then show ?case
    unfolding s delivered_append by (simp add: Let_def image_Un Un_assoc)
qed

lemma toolCalls_initial [simp]: "toolCalls initial = []"
  by (simp add: initial_def)

lemma keys_frames:
  "fst ` set (toolCalls (fst (runFrames mr initial fs))) =
     fst ` set (delivered (\<lambda>_. None) (streamFragments fs))"
  using keys_run_eq [of mr initial "concat (map frameActions fs)"]
  by (simp add: runFrames_def actionFragments_frames)

lemma buffer_frames:
  "bufferOf (fst (runFrames mr initial fs)) i =
     accumulate ''{}'' (deliveredArguments i (\<lambda>_. None) (streamFragments fs))"
  using run_buffer [of mr initial "concat (map frameActions fs)" i]
  by (simp add: runFrames_def actionFragments_frames)

lemma wfSession_frames: "wfSession (fst (runFrames mr initial fs))"
  unfolding runFrames_def by (rule wfSession_run [OF wfSession_initial])

lemma frameActions_split:
  "\<exists>pre post. frameActions f = pre @ post \<and> actionFragments pre = []
     \<and> (\<forall>x\<in>set post. \<not> isSignal x)"
proof (cases "firstChoice f")
  case None
  have "frameActions f = usageActions f @ []"
    by (simp add: frameActions_def None)
  moreover have "actionFragments (usageActions f) = []"
    by (simp add: usageActions_def split: option.splits)
  ultimately have "frameActions f = usageActions f @ [] \<and> actionFragments (usageActions f) = []
      \<and> (\<forall>x\<in>set ([] :: action list). \<not> isSignal x)"
    by simp
  then have "\<exists>post. frameActions f = usageActions f @ post \<and> actionFragments (usageActions f) = []
      \<and> (\<forall>x\<in>set post. \<not> isSignal x)"
    by (rule exI)
  then show ?thesis
    by (rule exI)
next
  case (Some c)
  have "frameActions f = (usageActions f @ finishActions c) @ deltaActions c"
    by (simp add: frameActions_def Some)
  moreover have "actionFragments (usageActions f @ finishActions c) = []"
    by (simp add: usageActions_def finishActions_def split: option.splits)
  moreover have "\<forall>x\<in>set (deltaActions c). \<not> isSignal x"
    by (auto simp: deltaActions_def contentActions_def fragmentActions_def split: option.splits if_splits)
  ultimately have "frameActions f = (usageActions f @ finishActions c) @ deltaActions c
      \<and> actionFragments (usageActions f @ finishActions c) = []
      \<and> (\<forall>x\<in>set (deltaActions c). \<not> isSignal x)"
    by (intro conjI)
  then have "\<exists>post. frameActions f = (usageActions f @ finishActions c) @ post
      \<and> actionFragments (usageActions f @ finishActions c) = []
      \<and> (\<forall>x\<in>set post. \<not> isSignal x)"
    by (rule exI)
  then show ?thesis
    by (rule exI)
qed

lemma frameActions_finish:
  "carriesFinish f \<Longrightarrow> \<exists>r post. frameActions f = usageActions f @ Signal r # post"
  by (cases "firstChoice f")
     (auto simp: carriesFinish_def frameActions_def finishActions_def truthy_iff)

lemma not_completed_frame:
  assumes "wfSession st" "\<not> completedIn st i" "\<not> carriesFinish f \<or> i \<notin> fst ` set (toolCalls st)"
  shows "\<not> completedIn (fst (run mr st (frameActions f))) i"
proof (cases "carriesFinish f")
  case False
  then have "\<forall>x\<in>set (frameActions f). \<not> isSignal x"
    using frameActions_no_signal by blast
  with assms(2) show ?thesis by (rule not_completed_run)
next
  case True
  with assms(3) have k: "i \<notin> fst ` set (toolCalls st)" by simp
  from frameActions_split obtain pre post where
    p: "frameActions f = pre @ post" "actionFragments pre = []" "\<forall>x\<in>set post. \<not> isSignal x"
    by blast
  have "i \<notin> fst ` set (toolCalls (fst (run mr st pre)))"
    using k by (simp add: keys_run_eq p(2))
  then have "\<not> completedIn (fst (run mr st pre)) i"
    using completedIn_tracked [of "fst (run mr st pre)" i] by (auto simp: map_of_eq_None_iff)
  from not_completed_run [OF this p(3)] show ?thesis
    by (simp add: p(1) run_append Let_def)
qed

lemma streamFragments_append [simp]:
  "streamFragments (fs @ gs) = streamFragments fs @ streamFragments gs"
  by (simp add: streamFragments_def)

lemma flushed_input:
  assumes "i \<in> fst ` set (delivered (\<lambda>_. None) (streamFragments (seen @ fs)))"
    and "\<not> completedIn (fst (runFrames mr initial seen)) i"
  shows "\<exists>n. ToolCall i n
             (accumulate ''{}'' (deliveredArguments i (\<lambda>_. None) (streamFragments (beforeFlush i seen fs))))
           \<in> set (snd (runFrames mr (fst (runFrames mr initial seen)) fs) @
                  snd (finishStream (fst (runFrames mr (fst (runFrames mr initial seen)) fs))))"
  using assms
proof (induction fs arbitrary: seen)
  case Nil
  let ?s = "fst (runFrames mr initial seen)"
  have "i \<in> fst ` set (toolCalls ?s)"
    using Nil.prems(1) by (simp add: keys_frames)
  from flush_emits [OF wfSession_frames this Nil.prems(2)] obtain n where
    "ToolCall i n (bufferOf ?s i) \<in> set (snd (flush ?s))"
    by blast
  then have "ToolCall i n (bufferOf ?s i) \<in> set (snd (finishStream ?s))"
    by (simp add: finishStream_def Let_def)
  then have "ToolCall i n (accumulate ''{}'' (deliveredArguments i (\<lambda>_. None) (streamFragments (beforeFlush i seen []))))
      \<in> set (snd (runFrames mr ?s []) @ snd (finishStream (fst (runFrames mr ?s []))))"
    unfolding buffer_frames by simp
  then show ?case
    by (rule exI)
next
  case (Cons f fs)
  let ?s = "fst (runFrames mr initial seen)"
  show ?case
  proof (cases "carriesFinish f \<and> i \<in> fst ` set (delivered (\<lambda>_. None) (streamFragments seen))")
    case True
    from frameActions_finish obtain r post where
      fa: "frameActions f = usageActions f @ Signal r # post"
      using True by blast
    let ?s1 = "fst (run mr ?s (usageActions f))"
    let ?s2 = "?s1 \<lparr> actualFinishReason := mr r \<rparr>"
    have nf: "actionFragments (usageActions f) = []"
      by (simp add: usageActions_def split: option.splits)
    have w1: "wfSession ?s1"
      by (rule wfSession_run [OF wfSession_frames])
    then have w: "wfSession ?s2"
      by (simp add: wfSession_def)
    have "i \<in> fst ` set (toolCalls ?s)"
      using True by (simp add: keys_frames)
    then have k: "i \<in> fst ` set (toolCalls ?s2)"
      by (simp add: keys_run_eq nf)
    have "\<not> completedIn ?s1 i"
      using Cons.prems(2) usageActions_no_signal by (intro not_completed_run) blast+
    then have c: "\<not> completedIn ?s2 i"
      by simp
    have b: "bufferOf ?s2 i = bufferOf ?s i"
      using run_buffer [of mr ?s "usageActions f" i] by (simp add: nf)
    from flush_emits [OF w k c] obtain n where
      "ToolCall i n (bufferOf ?s i) \<in> set (snd (flush ?s2))"
      unfolding b by blast
    then have "ToolCall i n (bufferOf ?s i) \<in> set (snd (run mr ?s (frameActions f)))"
      by (simp add: fa run_append Let_def)
    then have "ToolCall i n (bufferOf ?s i) \<in> set (snd (runFrames mr ?s (f # fs)))"
      by (simp add: runFrames_def run_append Let_def)
    then have "ToolCall i n (accumulate ''{}'' (deliveredArguments i (\<lambda>_. None) (streamFragments seen)))
        \<in> set (snd (runFrames mr ?s (f # fs)) @ snd (finishStream (fst (runFrames mr ?s (f # fs)))))"
      unfolding buffer_frames by simp
    moreover have "beforeFlush i seen (f # fs) = seen"
      by (rule trans [OF beforeFlush.simps(2) if_P [OF True]])
    ultimately show ?thesis
      by (simp only:) (rule exI)
  next
    case False
    let ?s' = "fst (runFrames mr initial (seen @ [f]))"
    have e: "?s' = fst (run mr ?s (frameActions f))"
      by (simp add: runFrames_def run_append Let_def)
    have "\<not> carriesFinish f \<or> i \<notin> fst ` set (toolCalls ?s)"
      using False by (simp add: keys_frames)
    from not_completed_frame [OF wfSession_frames Cons.prems(2) this]
    have c: "\<not> completedIn ?s' i"
      unfolding e .
    have d: "i \<in> fst ` set (delivered (\<lambda>_. None) (streamFragments ((seen @ [f]) @ fs)))"
      using Cons.prems(1) by simp
    from Cons.IH [OF d c] obtain n where
      n: "ToolCall i n
             (accumulate ''{}'' (deliveredArguments i (\<lambda>_. None) (streamFragments (beforeFlush i (seen @ [f]) fs))))
           \<in> set (snd (runFrames mr ?s' fs) @ snd (finishStream (fst (runFrames mr ?s' fs))))"
      by blast
    have r: "runFrames mr ?s (f # fs) =
        (fst (runFrames mr ?s' fs), snd (run mr ?s (frameActions f)) @ snd (runFrames mr ?s' fs))"
      unfolding e by (simp add: runFrames_def run_append Let_def)
    have bf: "beforeFlush i seen (f # fs) = beforeFlush i (seen @ [f]) fs"
      by (rule trans [OF beforeFlush.simps(2) if_not_P [OF False]])
    from n have "ToolCall i n
             (accumulate ''{}'' (deliveredArguments i (\<lambda>_. None) (streamFragments (beforeFlush i (seen @ [f]) fs))))
           \<in> set (snd (runFrames mr ?s (f # fs)) @ snd (finishStream (fst (runFrames mr ?s (f # fs)))))"
      unfolding r fst_conv snd_conv by auto
    then show ?thesis
      unfolding bf by (rule exI)
  qed
qed

lemma beforeFlush_empty:
  "streamFragments fs = [] \<Longrightarrow> streamFragments (beforeFlush i seen fs) = streamFragments seen"
proof (induction fs arbitrary: seen)
  case Nil
  show ?case by simp
next
  case (Cons f fs)
  from Cons.prems have e: "frameFragments f = []" "streamFragments fs = []"
    by (simp_all add: streamFragments_def)
  have "streamFragments (beforeFlush i (seen @ [f]) fs) = streamFragments (seen @ [f])"
    using e(2) by (rule Cons.IH)
  also have "\<dots> = streamFragments seen"
    using e(1) by (simp add: streamFragments_def)
  finally show ?case by simp
qed

lemma beforeFlush_all:
  "fragmentsBeforeFinish fs \<Longrightarrow> streamFragments (beforeFlush i seen fs) = streamFragments (seen @ fs)"
proof (induction fs arbitrary: seen)
  case Nil
  show ?case by simp
next
  case (Cons f fs)
  show ?case
  proof (cases "carriesFinish f")
    case True
    with Cons.prems have "frameFragments f = []" "streamFragments fs = []"
      by simp_all
    then have e: "streamFragments (f # fs) = []"
      by (simp add: streamFragments_def)
    from beforeFlush_empty [OF this] show ?thesis
      using e by simp
  next
    case False
    with Cons.prems have "fragmentsBeforeFinish fs" by simp
    from Cons.IH [OF this, of "seen @ [f]"] show ?thesis
      using False by simp
  qed
qed

lemma flushedArguments_all:
  "fragmentsBeforeFinish fs \<Longrightarrow>
   flushedArguments i fs = deliveredArguments i (\<lambda>_. None) (streamFragments fs)"
  by (simp add: flushedArguments_def beforeFlush_all)

lemma stream_input:
  assumes "i \<in> fst ` set (delivered (\<lambda>_. None) (streamFragments fs))"
  shows "\<exists>n. ToolCall i n (accumulate ''{}'' (flushedArguments i fs))
           \<in> set (snd (runFrames mr initial fs) @ snd (finishStream (fst (runFrames mr initial fs))))"
  using flushed_input [of i "[]" fs mr] assms
  by (simp add: flushedArguments_def)

section \<open>The claims\<close>

text \<open>
  Claim C4.  In a stream that ends normally, in which no frame carries a finish signal
  and no frame carries a usage object, the last event is the only \<open>finish\<close> event; its
  usage is zero in all three fields and its \<open>finishReason\<close> is \<open>stop\<close>.
\<close>

theorem C4_default_finish:
  assumes "endsNormally reads"
    and "\<forall>f\<in>set (readFrames parse reads). frame_usage f = None \<and> \<not> carriesFinish f"
  shows "\<exists>es. fst (doStream parse mr reads) =
            es @ [Finish \<lparr> inputTokens = 0, outputTokens = 0, totalTokens = 0 \<rparr> ''stop'']
          \<and> (\<forall>e\<in>set es. \<not> isFinish e)"
proof -
  let ?as = "concat (map frameActions (readFrames parse reads))"
  let ?r = "run mr initial ?as"
  have nu: "\<forall>a\<in>set ?as. \<not> isSetUsage a"
    using assms(2) by (auto dest: frameActions_no_usage)
  have ns: "\<forall>a\<in>set ?as. \<not> isSignal a"
    using assms(2) by (auto dest: frameActions_no_signal)
  have u: "usage (fst ?r) = \<lparr> inputTokens = 0, outputTokens = 0, totalTokens = 0 \<rparr>"
    using run_usage [OF nu, of mr initial] by (simp add: initial_def)
  have r: "actualFinishReason (fst ?r) = ''stop''"
    using run_reason [OF ns, of mr initial] by (simp add: initial_def)
  have ev: "fst (doStream parse mr reads) =
      (snd ?r @ snd (flush (fst ?r))) @ [Finish (usage (fst ?r)) (actualFinishReason (fst ?r))]"
    by (simp add: doStream_run [OF assms(1)] runFrames_def finishStream_def Let_def)
  have nf: "\<forall>e\<in>set (snd ?r @ snd (flush (fst ?r))). \<not> isFinish e"
    by (auto dest: run_no_finish flush_events)
  show ?thesis
    using ev nf u r by metis
qed

theorem C4_default_finish_witness:
  "endsNormally [sse helloPayload, sse worldPayload, sse ''[DONE]'']
   \<and> list_all (\<lambda>f. frame_usage f = None \<and> \<not> carriesFinish f)
        (readFrames sampleParse [sse helloPayload, sse worldPayload, sse ''[DONE]''])
   \<and> readFrames sampleParse [sse helloPayload, sse worldPayload, sse ''[DONE]'']
       = [textFrame ''Hello'', textFrame ''World'']
   \<and> (\<exists>es. fst (doStream sampleParse sampleReason
                 [sse helloPayload, sse worldPayload, sse ''[DONE]'']) =
            es @ [Finish \<lparr> inputTokens = 0, outputTokens = 0, totalTokens = 0 \<rparr> ''stop'']
          \<and> (\<forall>e\<in>set es. \<not> isFinish e))"
proof -
  let ?reads = "[sse helloPayload, sse worldPayload, sse ''[DONE]'']"
  have h1: "endsNormally ?reads"
    by code_simp
  have fs: "readFrames sampleParse ?reads = [textFrame ''Hello'', textFrame ''World'']"
    by code_simp
  have h2: "list_all (\<lambda>f. frame_usage f = None \<and> \<not> carriesFinish f) (readFrames sampleParse ?reads)"
    unfolding fs by code_simp
  from h2 have h2': "\<forall>f\<in>set (readFrames sampleParse ?reads). frame_usage f = None \<and> \<not> carriesFinish f"
    by (simp only: list_all_iff)
  show ?thesis
    using h1 h2 fs C4_default_finish [OF h1 h2', of sampleReason] by blast
qed

text \<open>
  Claim C7.  A frame that carries a usage object overwrites all three fields of the
  session usage with the values of that object: \<open>inputTokens\<close> becomes its
  \<open>prompt_tokens\<close>, \<open>outputTokens\<close> its \<open>completion_tokens\<close> and \<open>totalTokens\<close> its
  \<open>total_tokens\<close>, each read as 0 when the object leaves it out, whatever the usage was
  before and whatever the frame's choice list is.  A frame without a usage object leaves
  the session usage as it is.  Hence the \<open>finish\<close> event of a stream that ends normally
  reports the values of the last usage object of the stream.
\<close>

theorem C7_last_usage_wins:
  "(frame_usage f = Some u \<longrightarrow>
      usage (fst (processFrame mapReason st f)) =
        \<lparr> inputTokens = (case prompt_tokens u of None \<Rightarrow> 0 | Some n \<Rightarrow> n),
          outputTokens = (case completion_tokens u of None \<Rightarrow> 0 | Some n \<Rightarrow> n),
          totalTokens = (case total_tokens u of None \<Rightarrow> 0 | Some n \<Rightarrow> n) \<rparr>)
   \<and> (frame_usage f = None \<longrightarrow> usage (fst (processFrame mapReason st f)) = usage st)
   \<and> (endsNormally reads \<and> frameUsages (readFrames parse reads) = us @ [v] \<longrightarrow>
        (\<exists>es r. fst (doStream parse mapReason reads) =
           es @ [Finish \<lparr> inputTokens = (case prompt_tokens v of None \<Rightarrow> 0 | Some n \<Rightarrow> n),
                          outputTokens = (case completion_tokens v of None \<Rightarrow> 0 | Some n \<Rightarrow> n),
                          totalTokens = (case total_tokens v of None \<Rightarrow> 0 | Some n \<Rightarrow> n) \<rparr> r]
         \<and> (\<forall>e\<in>set es. \<not> isFinish e)))"
proof (intro conjI impI)
  assume "frame_usage f = Some u"
  then have "usage (fst (processFrame mapReason st f)) = readUsage u"
    by (rule processFrame_usage)
  then show "usage (fst (processFrame mapReason st f)) =
        \<lparr> inputTokens = (case prompt_tokens u of None \<Rightarrow> 0 | Some n \<Rightarrow> n),
          outputTokens = (case completion_tokens u of None \<Rightarrow> 0 | Some n \<Rightarrow> n),
          totalTokens = (case total_tokens u of None \<Rightarrow> 0 | Some n \<Rightarrow> n) \<rparr>"
    by (simp only: readUsage_values)
next
  assume "frame_usage f = None"
  then show "usage (fst (processFrame mapReason st f)) = usage st"
    by (rule processFrame_keeps_usage)
next
  assume a: "endsNormally reads \<and> frameUsages (readFrames parse reads) = us @ [v]"
  let ?as = "concat (map frameActions (readFrames parse reads))"
  let ?r = "run mapReason initial ?as"
  have "usage (fst ?r) = readUsage v"
    using a by (simp add: run_last_usage actionUsages_frames)
  then have u: "usage (fst ?r) =
        \<lparr> inputTokens = (case prompt_tokens v of None \<Rightarrow> 0 | Some n \<Rightarrow> n),
          outputTokens = (case completion_tokens v of None \<Rightarrow> 0 | Some n \<Rightarrow> n),
          totalTokens = (case total_tokens v of None \<Rightarrow> 0 | Some n \<Rightarrow> n) \<rparr>"
    by (simp only: readUsage_values)
  have ev: "fst (doStream parse mapReason reads) =
      (snd ?r @ snd (flush (fst ?r))) @ [Finish (usage (fst ?r)) (actualFinishReason (fst ?r))]"
    using a by (simp add: doStream_run runFrames_def finishStream_def Let_def)
  have nf: "\<forall>e\<in>set (snd ?r @ snd (flush (fst ?r))). \<not> isFinish e"
    by (auto dest: run_no_finish flush_events)
  show "\<exists>es r. fst (doStream parse mapReason reads) =
           es @ [Finish \<lparr> inputTokens = (case prompt_tokens v of None \<Rightarrow> 0 | Some n \<Rightarrow> n),
                          outputTokens = (case completion_tokens v of None \<Rightarrow> 0 | Some n \<Rightarrow> n),
                          totalTokens = (case total_tokens v of None \<Rightarrow> 0 | Some n \<Rightarrow> n) \<rparr> r]
         \<and> (\<forall>e\<in>set es. \<not> isFinish e)"
    using ev nf unfolding u by blast
qed

theorem C7_last_usage_wins_witness:
  "frame_usage (finishFrame ''stop'' (Some partialUsage)) = Some partialUsage
   \<and> usage (fst (processFrame sampleReason (initial \<lparr> usage := \<lparr> inputTokens = 7, outputTokens = 1, totalTokens = 9 \<rparr> \<rparr>)
        (finishFrame ''stop'' (Some partialUsage))))
       = \<lparr> inputTokens = 100, outputTokens = 50, totalTokens = 0 \<rparr>
   \<and> frame_usage (textFrame ''Hello'') = None
   \<and> usage (fst (processFrame sampleReason (initial \<lparr> usage := \<lparr> inputTokens = 7, outputTokens = 1, totalTokens = 9 \<rparr> \<rparr>)
        (textFrame ''Hello'')))
       = \<lparr> inputTokens = 7, outputTokens = 1, totalTokens = 9 \<rparr>
   \<and> endsNormally [sse usagePayload, sse helloPayload, sse stopPayload, sse ''[DONE]'']
   \<and> frameUsages (readFrames sampleParse [sse usagePayload, sse helloPayload, sse stopPayload, sse ''[DONE]''])
       = [tokens 7 1 9, partialUsage]
   \<and> (\<exists>es. fst (doStream sampleParse sampleReason [sse usagePayload, sse helloPayload, sse stopPayload, sse ''[DONE]''])
        = es @ [Finish \<lparr> inputTokens = 100, outputTokens = 50, totalTokens = 0 \<rparr> ''stop''])"
proof -
  let ?reads = "[sse usagePayload, sse helloPayload, sse stopPayload, sse ''[DONE]'']"
  let ?st = "initial \<lparr> usage := \<lparr> inputTokens = 7, outputTokens = 1, totalTokens = 9 \<rparr> \<rparr>"
  let ?f = "finishFrame ''stop'' (Some partialUsage)"
  have h0: "frame_usage ?f = Some partialUsage"
    by (simp add: finishFrame_def)
  have h1: "frame_usage (textFrame ''Hello'') = None"
    by (simp add: textFrame_def)
  have h2: "endsNormally ?reads"
    by code_simp
  have fs: "frameUsages (readFrames sampleParse ?reads) = [tokens 7 1 9, partialUsage]"
    by code_simp
  then have fs': "frameUsages (readFrames sampleParse ?reads) = [tokens 7 1 9] @ [partialUsage]"
    by simp
  have run: "fst (doStream sampleParse sampleReason ?reads) =
      [TextStart ''text-0'', TextDelta ''text-0'' ''Hello'', TextEnd ''text-0'',
       Finish \<lparr> inputTokens = 100, outputTokens = 50, totalTokens = 0 \<rparr> ''stop'']"
    by code_simp
  note t = C7_last_usage_wins [of ?f partialUsage sampleReason ?st ?reads sampleParse "[tokens 7 1 9]" partialUsage]
  note t' = C7_last_usage_wins [of "textFrame ''Hello''" partialUsage sampleReason ?st ?reads sampleParse "[tokens 7 1 9]" partialUsage]
  have v: "\<lparr> inputTokens = (case prompt_tokens partialUsage of None \<Rightarrow> 0 | Some n \<Rightarrow> n),
             outputTokens = (case completion_tokens partialUsage of None \<Rightarrow> 0 | Some n \<Rightarrow> n),
             totalTokens = (case total_tokens partialUsage of None \<Rightarrow> 0 | Some n \<Rightarrow> n) \<rparr>
           = \<lparr> inputTokens = 100, outputTokens = 50, totalTokens = 0 \<rparr>"
    by (simp add: partialUsage_def)
  from t h0 have a: "usage (fst (processFrame sampleReason ?st ?f))
       = \<lparr> inputTokens = 100, outputTokens = 50, totalTokens = 0 \<rparr>"
    unfolding v by blast
  from t' h1 have b: "usage (fst (processFrame sampleReason ?st (textFrame ''Hello'')))
       = \<lparr> inputTokens = 7, outputTokens = 1, totalTokens = 9 \<rparr>"
    by simp
  from t h2 fs' have "\<exists>es r. fst (doStream sampleParse sampleReason ?reads) =
           es @ [Finish \<lparr> inputTokens = (case prompt_tokens partialUsage of None \<Rightarrow> 0 | Some n \<Rightarrow> n),
                          outputTokens = (case completion_tokens partialUsage of None \<Rightarrow> 0 | Some n \<Rightarrow> n),
                          totalTokens = (case total_tokens partialUsage of None \<Rightarrow> 0 | Some n \<Rightarrow> n) \<rparr> r]"
    by blast
  then have "\<exists>es r. fst (doStream sampleParse sampleReason ?reads) =
           es @ [Finish \<lparr> inputTokens = 100, outputTokens = 50, totalTokens = 0 \<rparr> r]"
    unfolding v .
  then have c: "\<exists>es. fst (doStream sampleParse sampleReason ?reads) =
           es @ [Finish \<lparr> inputTokens = 100, outputTokens = 50, totalTokens = 0 \<rparr> ''stop'']"
    unfolding run by auto
  show ?thesis
    using h0 a h1 b h2 fs c by blast
qed

text \<open>
  Claim C5.  A \<open>data:\<close> line whose payload does not parse changes neither the session
  nor the output, alone or among other lines; a chunk of such lines can be removed from
  a stream without changing what \<open>doStream\<close> emits or how it ends; a stream whose reads
  all succeed is closed, not errored, whatever its payloads; and a malformed chunk
  between two text frames leaves two \<open>text-delta\<close> events inside one
  \<open>text-start\<close>/\<open>text-end\<close> pair.
\<close>

theorem C5_malformed_frame_dropped:
  "(malformedLine parse bad \<longrightarrow>
      processLine parse mapReason st bad = (st, [])
      \<and> processLines parse mapReason st (ls @ bad # ms) = processLines parse mapReason st (ls @ ms))
   \<and> (malformedChunk parse cb \<longrightarrow>
      doStream parse mapReason (rs1 @ Chunk cb # rs2) = doStream parse mapReason (rs1 @ rs2))
   \<and> (endsNormally reads \<longrightarrow> snd (doStream parse mapReason reads) = Closed)
   \<and> (chunkFrames parse c1 = [textFrame t1] \<and> t1 \<noteq> [] \<and> malformedChunk parse cb
       \<and> chunkFrames parse c2 = [textFrame t2] \<and> t2 \<noteq> [] \<longrightarrow>
      doStream parse mapReason [Chunk c1, Chunk cb, Chunk c2] =
        ([TextStart ''text-0'', TextDelta ''text-0'' t1, TextDelta ''text-0'' t2, TextEnd ''text-0'',
          Finish \<lparr> inputTokens = 0, outputTokens = 0, totalTokens = 0 \<rparr> ''stop''], Closed))"
proof (intro conjI impI)
  assume m: "malformedLine parse bad"
  show "processLine parse mapReason st bad = (st, [])"
    using m by (rule processLine_malformed)
  show "processLines parse mapReason st (ls @ bad # ms) = processLines parse mapReason st (ls @ ms)"
    using m by (rule processLines_drop_malformed)
next
  assume "malformedChunk parse cb"
  then show "doStream parse mapReason (rs1 @ Chunk cb # rs2) = doStream parse mapReason (rs1 @ rs2)"
    by (simp add: doStream_def pump_drop_chunk chunkFrames_malformed)
next
  assume "endsNormally reads"
  then show "snd (doStream parse mapReason reads) = Closed"
    by (rule doStream_closed)
next
  assume a: "chunkFrames parse c1 = [textFrame t1] \<and> t1 \<noteq> [] \<and> malformedChunk parse cb
       \<and> chunkFrames parse c2 = [textFrame t2] \<and> t2 \<noteq> []"
  have e: "endsNormally [Chunk c1, Chunk cb, Chunk c2]"
    by simp
  have f: "readFrames parse [Chunk c1, Chunk cb, Chunk c2] = [textFrame t1, textFrame t2]"
    using a by (simp add: chunkFrames_malformed)
  show "doStream parse mapReason [Chunk c1, Chunk cb, Chunk c2] =
        ([TextStart ''text-0'', TextDelta ''text-0'' t1, TextDelta ''text-0'' t2, TextEnd ''text-0'',
          Finish \<lparr> inputTokens = 0, outputTokens = 0, totalTokens = 0 \<rparr> ''stop''], Closed)"
    unfolding doStream_run [OF e] f using a by (simp add: two_text_frames)
qed

theorem C5_malformed_frame_dropped_witness:
  "malformedLine sampleParse ''data: {invalid json}''
   \<and> malformedChunk sampleParse (''data: '' @ ''{invalid json}'' @ ''\<newline>\<newline>'')
   \<and> chunkFrames sampleParse (''data: '' @ helloPayload @ ''\<newline>\<newline>'') = [textFrame ''Hello'']
   \<and> chunkFrames sampleParse (''data: '' @ worldPayload @ ''\<newline>\<newline>'') = [textFrame ''World'']
   \<and> processLine sampleParse sampleReason initial ''data: {invalid json}'' = (initial, [])
   \<and> doStream sampleParse sampleReason [sse helloPayload, sse ''{invalid json}'', sse worldPayload]
       = doStream sampleParse sampleReason [sse helloPayload, sse worldPayload]
   \<and> doStream sampleParse sampleReason [sse helloPayload, sse ''{invalid json}'', sse worldPayload]
       = ([TextStart ''text-0'', TextDelta ''text-0'' ''Hello'', TextDelta ''text-0'' ''World'',
           TextEnd ''text-0'',
           Finish \<lparr> inputTokens = 0, outputTokens = 0, totalTokens = 0 \<rparr> ''stop''], Closed)"
proof -
  let ?c1 = "''data: '' @ helloPayload @ ''\<newline>\<newline>''"
  let ?cb = "''data: '' @ ''{invalid json}'' @ ''\<newline>\<newline>''"
  let ?c2 = "''data: '' @ worldPayload @ ''\<newline>\<newline>''"
  have ml: "malformedLine sampleParse ''data: {invalid json}''"
    by code_simp
  have mc: "malformedChunk sampleParse ?cb"
    by code_simp
  have f1: "chunkFrames sampleParse ?c1 = [textFrame ''Hello'']"
    by code_simp
  have f2: "chunkFrames sampleParse ?c2 = [textFrame ''World'']"
    by code_simp
  have n1: "''Hello'' \<noteq> []" and n2: "''World'' \<noteq> []"
    by simp_all
  note t = C5_malformed_frame_dropped [of sampleParse "''data: {invalid json}''" sampleReason initial
      "[]" "[]" ?cb "[Chunk ?c1]" "[Chunk ?c2]" "[]" ?c1 "''Hello''" ?c2 "''World''"]
  have a: "processLine sampleParse sampleReason initial ''data: {invalid json}'' = (initial, [])"
    using t ml by blast
  have "doStream sampleParse sampleReason ([Chunk ?c1] @ Chunk ?cb # [Chunk ?c2])
       = doStream sampleParse sampleReason ([Chunk ?c1] @ [Chunk ?c2])"
    using t mc by blast
  then have "doStream sampleParse sampleReason ([sse helloPayload] @ sse ''{invalid json}'' # [sse worldPayload])
       = doStream sampleParse sampleReason ([sse helloPayload] @ [sse worldPayload])"
    by (simp only: sse_def)
  then have b: "doStream sampleParse sampleReason [sse helloPayload, sse ''{invalid json}'', sse worldPayload]
       = doStream sampleParse sampleReason [sse helloPayload, sse worldPayload]"
    by (simp only: append_Cons append_Nil)
  have "doStream sampleParse sampleReason [Chunk ?c1, Chunk ?cb, Chunk ?c2]
       = ([TextStart ''text-0'', TextDelta ''text-0'' ''Hello'', TextDelta ''text-0'' ''World'',
           TextEnd ''text-0'',
           Finish \<lparr> inputTokens = 0, outputTokens = 0, totalTokens = 0 \<rparr> ''stop''], Closed)"
    using t mc f1 f2 n1 n2 by blast
  then have c: "doStream sampleParse sampleReason [sse helloPayload, sse ''{invalid json}'', sse worldPayload]
       = ([TextStart ''text-0'', TextDelta ''text-0'' ''Hello'', TextDelta ''text-0'' ''World'',
           TextEnd ''text-0'',
           Finish \<lparr> inputTokens = 0, outputTokens = 0, totalTokens = 0 \<rparr> ''stop''], Closed)"
    by (simp only: sse_def)
  show ?thesis
    using ml mc f1 f2 a b c by blast
qed


text \<open>
  Claim C6.  A fragment with a truthy id (present and not empty) is resolved to that id,
  and the index, when present, is mapped to it; a fragment without one is resolved
  through its index when the index is mapped, leaving the mapping as it is; any other
  fragment is dropped: no event, and the session is unchanged.  A resolved fragment is
  handled as a fragment of the call it resolves to.
\<close>

theorem C6_fragment_resolution:
  "(frag_id f = Some i \<and> i \<noteq> [] \<longrightarrow>
      resolveToolId (indexToId st) f =
        Some (i, case frag_index f of None \<Rightarrow> indexToId st | Some n \<Rightarrow> (indexToId st)(n \<mapsto> i))
      \<and> indexToId (fst (processToolCall st f)) =
          (case frag_index f of None \<Rightarrow> indexToId st | Some n \<Rightarrow> (indexToId st)(n \<mapsto> i))
      \<and> attributed st f i)
   \<and> (\<not> truthy (frag_id f) \<and> frag_index f = Some n \<and> indexToId st n = Some i \<longrightarrow>
      resolveToolId (indexToId st) f = Some (i, indexToId st)
      \<and> indexToId (fst (processToolCall st f)) = indexToId st
      \<and> attributed st f i)
   \<and> (\<not> truthy (frag_id f)
       \<and> (frag_index f = None \<or> (\<exists>n. frag_index f = Some n \<and> indexToId st n = None)) \<longrightarrow>
      resolveToolId (indexToId st) f = None \<and> processToolCall st f = (st, []))"
proof (intro conjI impI)
  assume a: "frag_id f = Some i \<and> i \<noteq> []"
  then show r: "resolveToolId (indexToId st) f =
        Some (i, case frag_index f of None \<Rightarrow> indexToId st | Some n \<Rightarrow> (indexToId st)(n \<mapsto> i))"
    by (simp add: resolve_by_id)
  show "indexToId (fst (processToolCall st f)) =
          (case frag_index f of None \<Rightarrow> indexToId st | Some n \<Rightarrow> (indexToId st)(n \<mapsto> i))"
    using resolved_attributed(2) [OF r] .
  show "attributed st f i"
    using resolved_attributed(1) [OF r] .
next
  assume a: "\<not> truthy (frag_id f) \<and> frag_index f = Some n \<and> indexToId st n = Some i"
  then show r: "resolveToolId (indexToId st) f = Some (i, indexToId st)"
    by (simp add: resolve_by_index)
  show "indexToId (fst (processToolCall st f)) = indexToId st"
    using resolved_attributed(2) [OF r] .
  show "attributed st f i"
    using resolved_attributed(1) [OF r] .
next
  assume a: "\<not> truthy (frag_id f)
       \<and> (frag_index f = None \<or> (\<exists>n. frag_index f = Some n \<and> indexToId st n = None))"
  then show r: "resolveToolId (indexToId st) f = None"
    by (simp add: resolve_none)
  show "processToolCall st f = (st, [])"
    using r by (rule processToolCall_dropped)
qed


theorem C6_fragment_resolution_witness:
  "resolveToolId (indexToId initial) (fragment (Some 0) (Some ''c1'') (Some ''f'') (Some ''{a:''))
     = Some (''c1'', (indexToId initial)(0 \<mapsto> ''c1''))
   \<and> attributed initial (fragment (Some 0) (Some ''c1'') (Some ''f'') (Some ''{a:'')) ''c1''
   \<and> indexToId afterStart 0 = Some ''c1''
   \<and> resolveToolId (indexToId afterStart) (fragment (Some 0) None None (Some ''1}''))
     = Some (''c1'', indexToId afterStart)
   \<and> attributed afterStart (fragment (Some 0) None None (Some ''1}'')) ''c1''
   \<and> indexToId afterStart 1 = None
   \<and> processToolCall afterStart (fragment (Some 1) None None (Some ''1}'')) = (afterStart, [])
   \<and> processToolCall afterStart (fragment None (Some []) None (Some ''1}'')) = (afterStart, [])"
proof -
  let ?f1 = "fragment (Some 0) (Some ''c1'') (Some ''f'') (Some ''{a:'')"
  let ?f2 = "fragment (Some 0) None None (Some ''1}'')"
  let ?f3 = "fragment (Some 1) None None (Some ''1}'')"
  let ?f4 = "fragment None (Some []) None (Some ''1}'')"
  have h1: "frag_id ?f1 = Some ''c1'' \<and> ''c1'' \<noteq> []"
    by (simp add: fragment_def)
  have i1: "frag_index ?f1 = Some 0"
    by (simp add: fragment_def)
  have m0: "indexToId afterStart 0 = Some ''c1''"
    using C6_fragment_resolution [of ?f1 "''c1''" initial] h1 i1
    by (simp add: afterStart_def)
  have m1: "indexToId afterStart 1 = None"
    using C6_fragment_resolution [of ?f1 "''c1''" initial] h1 i1
    by (simp add: afterStart_def initial_def)
  have h2: "\<not> truthy (frag_id ?f2) \<and> frag_index ?f2 = Some 0 \<and> indexToId afterStart 0 = Some ''c1''"
    using m0 by (simp add: fragment_def)
  have h3: "\<not> truthy (frag_id ?f3)
      \<and> (frag_index ?f3 = None \<or> (\<exists>n. frag_index ?f3 = Some n \<and> indexToId afterStart n = None))"
    using m1 by (simp add: fragment_def)
  have h4: "\<not> truthy (frag_id ?f4)
      \<and> (frag_index ?f4 = None \<or> (\<exists>n. frag_index ?f4 = Some n \<and> indexToId afterStart n = None))"
    by (simp add: fragment_def)
  have a: "resolveToolId (indexToId initial) ?f1 = Some (''c1'', (indexToId initial)(0 \<mapsto> ''c1''))"
      "attributed initial ?f1 ''c1''"
    using C6_fragment_resolution [of ?f1 "''c1''" initial] h1 i1 by simp_all
  have b: "resolveToolId (indexToId afterStart) ?f2 = Some (''c1'', indexToId afterStart)"
      "attributed afterStart ?f2 ''c1''"
    using C6_fragment_resolution [of ?f2 "''c1''" afterStart 0] h2 by blast+
  have c: "processToolCall afterStart ?f3 = (afterStart, [])"
    using C6_fragment_resolution [of ?f3 _ afterStart] h3 by blast
  have d: "processToolCall afterStart ?f4 = (afterStart, [])"
    using C6_fragment_resolution [of ?f4 _ afterStart] h4 by blast
  show ?thesis
    using a b c d m0 m1 by blast
qed


text \<open>
  Claim C3.  Whatever the stream, and however often the flush runs, the output holds at
  most one \<open>tool-input-end\<close> and at most one \<open>tool-call\<close> for each tool-call id, and at
  most one \<open>text-end\<close> for each text id.
\<close>

theorem C3_flush_idempotent:
  "occurrences (isEnd i) (fst (doStream parse mapReason reads)) \<le> 1
   \<and> occurrences (isCall i) (fst (doStream parse mapReason reads)) \<le> 1
   \<and> occurrences (isTextEnd i) (fst (doStream parse mapReason reads)) \<le> 1"
proof -
  let ?r = "runFrames mapReason initial (readFrames parse reads)"
  have inv: "wfSession (fst ?r)" "counted (fst ?r) (snd ?r)"
    using run_invariant [OF wfSession_initial counted_initial, of mapReason]
    by (simp_all add: runFrames_def)
  show ?thesis
  proof (cases "endsNormally reads")
    case False
    then have "fst (doStream parse mapReason reads) = snd ?r"
      by (simp add: doStream_def pump_events)
    then show ?thesis
      using occurrences_le_one_of_counted [OF inv(2)] by simp
  next
    case True
    then have ev: "fst (doStream parse mapReason reads) = snd ?r @ snd (finishStream (fst ?r))"
      by (simp add: doStream_def pump_events)
    have "counted (fst (flush (fst ?r))) (snd ?r @ snd (flush (fst ?r)))"
      using inv by (rule counted_flush)
    from occurrences_le_one_of_counted [OF this, of i] show ?thesis
      by (simp add: ev finishStream_occurrences)
  qed
qed


theorem C3_flush_idempotent_witness:
  "doStream sampleParse sampleReason
     [sse callStartPayload, sse helloPayload, sse toolsDonePayload, sse ''[DONE]''] =
     ([ToolInputStart ''c1'' ''f'', ToolInputDelta ''c1'' ''{a:'',
       TextStart ''text-0'', TextDelta ''text-0'' ''Hello'',
       ToolInputEnd ''c1'', ToolCall ''c1'' ''f'' ''{a:'', TextEnd ''text-0'',
       Finish \<lparr> inputTokens = 0, outputTokens = 0, totalTokens = 0 \<rparr> ''tool-calls''], Closed)
   \<and> occurrences (isEnd ''c1'') (fst (doStream sampleParse sampleReason
         [sse callStartPayload, sse helloPayload, sse toolsDonePayload, sse ''[DONE]''])) \<le> 1
   \<and> occurrences (isCall ''c1'') (fst (doStream sampleParse sampleReason
         [sse callStartPayload, sse helloPayload, sse toolsDonePayload, sse ''[DONE]''])) \<le> 1
   \<and> occurrences (isTextEnd ''text-0'') (fst (doStream sampleParse sampleReason
         [sse callStartPayload, sse helloPayload, sse toolsDonePayload, sse ''[DONE]''])) \<le> 1"
proof -
  let ?reads = "[sse callStartPayload, sse helloPayload, sse toolsDonePayload, sse ''[DONE]'']"
  have run: "doStream sampleParse sampleReason ?reads =
     ([ToolInputStart ''c1'' ''f'', ToolInputDelta ''c1'' ''{a:'',
       TextStart ''text-0'', TextDelta ''text-0'' ''Hello'',
       ToolInputEnd ''c1'', ToolCall ''c1'' ''f'' ''{a:'', TextEnd ''text-0'',
       Finish \<lparr> inputTokens = 0, outputTokens = 0, totalTokens = 0 \<rparr> ''tool-calls''], Closed)"
    by code_simp
  show ?thesis
    using run C3_flush_idempotent [of "''c1''" sampleParse sampleReason ?reads]
      C3_flush_idempotent [of "''text-0''" sampleParse sampleReason ?reads]
    by blast
qed


text \<open>
  Claim C10.  A fragment whose \<open>arguments\<close> is the empty string produces no
  \<open>tool-input-delta\<close> and leaves every argument buffer as it was.  In a stream that ends
  normally, a call to which fragments were delivered, none of them with non-empty
  arguments, gets exactly one \<open>tool-call\<close> event, and its input is \<open>{}\<close>.
\<close>

theorem C10_empty_arguments:
  "(fragArguments f = Some [] \<longrightarrow>
      (\<forall>e\<in>set (snd (processToolCall st f)). \<forall>k. \<not> isDelta k e)
      \<and> (\<forall>k. bufferOf (fst (processToolCall st f)) k = bufferOf st k))
   \<and> (endsNormally reads
       \<and> i \<in> fst ` set (delivered (\<lambda>_. None) (streamFragments (readFrames parse reads)))
       \<and> deliveredArguments i (\<lambda>_. None) (streamFragments (readFrames parse reads)) = [] \<longrightarrow>
      (\<exists>n. filter (isCall i) (fst (doStream parse mapReason reads)) = [ToolCall i n ''{}'']))"
proof (intro conjI impI)
  assume "fragArguments f = Some []"
  then show "\<forall>e\<in>set (snd (processToolCall st f)). \<forall>k. \<not> isDelta k e"
    and "\<forall>k. bufferOf (fst (processToolCall st f)) k = bufferOf st k"
    by (rule empty_fragment)+
next
  let ?as = "concat (map frameActions (readFrames parse reads))"
  let ?es = "snd (run mapReason initial ?as) @ snd (finishStream (fst (run mapReason initial ?as)))"
  assume a: "endsNormally reads
       \<and> i \<in> fst ` set (delivered (\<lambda>_. None) (streamFragments (readFrames parse reads)))
       \<and> deliveredArguments i (\<lambda>_. None) (streamFragments (readFrames parse reads)) = []"
  then obtain g where "(i, g) \<in> set (delivered (indexToId initial) (actionFragments ?as))"
    by (auto simp: actionFragments_frames)
  then have "i \<in> fst ` set (toolCalls (fst (run mapReason initial ?as)))"
    by (rule delivered_tracked)
  then have "occurrences (isCall i) ?es = 1"
    using final_counts(1) [OF wfSession_initial counted_initial, of i mapReason ?as] by simp
  from filter_single [OF this] obtain e where
    e: "filter (isCall i) ?es = [e]" "isCall i e" "e \<in> set ?es"
    by blast
  from isCall_cases [OF e(2)] obtain n b where c: "e = ToolCall i n b"
    by blast
  from call_inputs [OF wfSession_initial e(3) [unfolded c]] obtain k where
    "b = accumulate (bufferOf initial i)
           (take k (deliveredArguments i (indexToId initial) (actionFragments ?as)))"
    by blast
  then have "b = ''{}''"
    using a by (simp add: actionFragments_frames)
  then show "\<exists>n. filter (isCall i) (fst (doStream parse mapReason reads)) = [ToolCall i n ''{}'']"
    using e(1) c a by (auto simp: doStream_events)
qed

theorem C10_empty_arguments_witness:
  "fragArguments (fragment (Some 0) (Some ''c2'') (Some ''getCurrentTime'') (Some [])) = Some []
   \<and> snd (processToolCall initial (fragment (Some 0) (Some ''c2'') (Some ''getCurrentTime'') (Some [])))
       = [ToolInputStart ''c2'' ''getCurrentTime'']
   \<and> bufferOf (fst (processToolCall initial
         (fragment (Some 0) (Some ''c2'') (Some ''getCurrentTime'') (Some [])))) ''c2'' = ''{}''
   \<and> endsNormally [sse emptyArgsPayload, sse toolsDonePayload, sse ''[DONE]'']
   \<and> delivered (\<lambda>_. None) (streamFragments (readFrames sampleParse
         [sse emptyArgsPayload, sse toolsDonePayload, sse ''[DONE]'']))
       = [(''c2'', fragment (Some 0) (Some ''c2'') (Some ''getCurrentTime'') (Some []))]
   \<and> deliveredArguments ''c2'' (\<lambda>_. None) (streamFragments (readFrames sampleParse
         [sse emptyArgsPayload, sse toolsDonePayload, sse ''[DONE]''])) = []
   \<and> (\<exists>n. filter (isCall ''c2'') (fst (doStream sampleParse sampleReason
         [sse emptyArgsPayload, sse toolsDonePayload, sse ''[DONE]''])) = [ToolCall ''c2'' n ''{}''])"
proof -
  let ?f = "fragment (Some 0) (Some ''c2'') (Some ''getCurrentTime'') (Some [])"
  let ?reads = "[sse emptyArgsPayload, sse toolsDonePayload, sse ''[DONE]'']"
  have h1: "fragArguments ?f = Some []"
    by (simp add: fragArguments_def fragment_def)
  have ev: "snd (processToolCall initial ?f) = [ToolInputStart ''c2'' ''getCurrentTime'']"
    by code_simp
  have b0: "bufferOf initial ''c2'' = ''{}''"
    by simp
  have h2: "endsNormally ?reads"
    by code_simp
  have fr: "streamFragments (readFrames sampleParse ?reads) = [?f]"
    by code_simp
  have dl: "delivered (\<lambda>_. None) (streamFragments (readFrames sampleParse ?reads)) = [(''c2'', ?f)]"
    unfolding fr by (simp add: resolveToolId_def fragment_def)
  have h3: "''c2'' \<in> fst ` set (delivered (\<lambda>_. None) (streamFragments (readFrames sampleParse ?reads)))"
    unfolding dl by simp
  have h4: "deliveredArguments ''c2'' (\<lambda>_. None) (streamFragments (readFrames sampleParse ?reads)) = []"
    unfolding deliveredArguments_def dl by (simp add: argumentsOf_def fragArguments_def fragment_def)
  note t = C10_empty_arguments [of ?f initial ?reads "''c2''" sampleParse sampleReason]
  have a: "bufferOf (fst (processToolCall initial ?f)) ''c2'' = ''{}''"
    using t h1 b0 by simp
  have b: "\<exists>n. filter (isCall ''c2'') (fst (doStream sampleParse sampleReason ?reads)) = [ToolCall ''c2'' n ''{}'']"
    using t h2 h3 h4 by blast
  show ?thesis
    using h1 ev a h2 dl h4 b by blast
qed


text \<open>
  Claim C9.  In a stream that ends normally, take a tool-call id to which fragments were
  delivered, none of them with a truthy function name.  Then no \<open>tool-input-start\<close> is
  emitted for it; there is exactly one \<open>tool-call\<close> event for it, it stands right after
  the \<open>tool-input-end\<close> of the id, its \<open>toolName\<close> is the empty string, and its input is
  the argument buffer at the flush: the sentinel \<open>{}\<close> with the argument fragments
  delivered for the id before the flush accumulated onto it, in arrival order.  When no
  tool-call fragment arrives in or after a frame that carries a finish signal, these are
  all argument fragments delivered for the id, and the input is their concatenation
  (\<open>{}\<close> when there is none), provided no proper non-empty prefix of them concatenates to
  \<open>{}\<close>.
\<close>

theorem C9_unnamed_call:
  assumes "endsNormally reads"
    and "i \<in> fst ` set (delivered (\<lambda>_. None) (streamFragments (readFrames parse reads)))"
    and "deliveredNames i (\<lambda>_. None) (streamFragments (readFrames parse reads)) = []"
  shows "(\<forall>e\<in>set (fst (doStream parse mapReason reads)). \<not> isStart i e)
    \<and> adjacent (ToolInputEnd i)
         (ToolCall i [] (accumulate ''{}'' (flushedArguments i (readFrames parse reads))))
         (fst (doStream parse mapReason reads))
    \<and> filter (isCall i) (fst (doStream parse mapReason reads)) =
         [ToolCall i [] (accumulate ''{}'' (flushedArguments i (readFrames parse reads)))]
    \<and> (fragmentsBeforeFinish (readFrames parse reads)
        \<and> sentinelFree (deliveredArguments i (\<lambda>_. None) (streamFragments (readFrames parse reads))) \<longrightarrow>
          filter (isCall i) (fst (doStream parse mapReason reads)) =
            [ToolCall i []
               (if deliveredArguments i (\<lambda>_. None) (streamFragments (readFrames parse reads)) = []
                then ''{}''
                else concat (deliveredArguments i (\<lambda>_. None) (streamFragments (readFrames parse reads))))])"
proof -
  let ?fs = "readFrames parse reads"
  let ?as = "concat (map frameActions ?fs)"
  let ?es = "snd (run mapReason initial ?as) @ snd (finishStream (fst (run mapReason initial ?as)))"
  let ?a = "accumulate ''{}'' (flushedArguments i ?fs)"
  let ?args = "deliveredArguments i (\<lambda>_. None) (streamFragments ?fs)"
  have es: "fst (doStream parse mapReason reads) = ?es"
    using assms(1) by (rule doStream_events)
  have nostart: "\<not> isStart i e" if "e \<in> set ?es" for e
  proof
    assume "isStart i e"
    then obtain n where e: "e = ToolInputStart i n" by (cases e) auto
    with that have "ToolInputStart i n \<in> set (snd (run mapReason initial ?as))"
      by (auto simp: finishStream_no_start)
    from run_start [OF this] show False
      using assms(3) by (simp add: actionFragments_frames)
  qed
  obtain g where "(i, g) \<in> set (delivered (indexToId initial) (actionFragments ?as))"
    using assms(2) by (auto simp: actionFragments_frames)
  then have "i \<in> fst ` set (toolCalls (fst (run mapReason initial ?as)))"
    by (rule delivered_tracked)
  then have "occurrences (isCall i) ?es = 1"
    using final_counts(1) [OF wfSession_initial counted_initial, of i mapReason ?as] by simp
  from filter_single [OF this] obtain e where
    e: "filter (isCall i) ?es = [e]" "isCall i e" "e \<in> set ?es"
    by blast
  from stream_input [OF assms(2), of mapReason] obtain n where
    n: "ToolCall i n ?a \<in> set ?es"
    unfolding runFrames_def by blast
  then have "ToolCall i n ?a \<in> set (filter (isCall i) ?es)"
    by simp
  then have c: "e = ToolCall i n ?a"
    unfolding e(1) by simp
  from call_names [OF wfSession_initial n] have nm: "n = []"
    using assms(3) by (auto simp: actionFragments_frames)
  have pp: "paired ?es"
    by (rule paired_stream)
  have "ToolCall i [] ?a \<in> set ?es"
    using n by (simp only: nm)
  with pp have adj: "adjacent (ToolInputEnd i) (ToolCall i [] ?a) ?es"
    unfolding paired_def by blast
  have one: "filter (isCall i) ?es = [ToolCall i [] ?a]"
    using e(1) by (simp only: c nm)
  have "filter (isCall i) ?es = [ToolCall i [] (if ?args = [] then ''{}'' else concat ?args)]"
    if h: "fragmentsBeforeFinish ?fs \<and> sentinelFree ?args"
  proof -
    have "flushedArguments i ?fs = ?args"
      using h by (simp add: flushedArguments_all)
    then have "?a = (if ?args = [] then ''{}'' else concat ?args)"
      using h accumulate_sentinelFree [of ?args] by simp
    then show ?thesis
      using one by simp
  qed
  then show ?thesis
    unfolding es using nostart adj one by blast
qed

theorem C9_unnamed_call_witness:
  "endsNormally [sse unnamedStartPayload, sse callRestPayload, sse toolsDonePayload, sse ''[DONE]'']
   \<and> delivered (\<lambda>_. None) (streamFragments (readFrames sampleParse
         [sse unnamedStartPayload, sse callRestPayload, sse toolsDonePayload, sse ''[DONE]'']))
       = [(''c9'', fragment (Some 0) (Some ''c9'') None (Some ''{x:'')),
          (''c9'', fragment (Some 0) None None (Some ''1}''))]
   \<and> deliveredNames ''c9'' (\<lambda>_. None) (streamFragments (readFrames sampleParse
         [sse unnamedStartPayload, sse callRestPayload, sse toolsDonePayload, sse ''[DONE]''])) = []
   \<and> fragmentsBeforeFinish (readFrames sampleParse
         [sse unnamedStartPayload, sse callRestPayload, sse toolsDonePayload, sse ''[DONE]''])
   \<and> deliveredArguments ''c9'' (\<lambda>_. None) (streamFragments (readFrames sampleParse
         [sse unnamedStartPayload, sse callRestPayload, sse toolsDonePayload, sse ''[DONE]'']))
       = [''{x:'', ''1}'']
   \<and> sentinelFree [''{x:'', ''1}'']
   \<and> list_all (\<lambda>e. \<not> isStart ''c9'' e) (fst (doStream sampleParse sampleReason
         [sse unnamedStartPayload, sse callRestPayload, sse toolsDonePayload, sse ''[DONE]'']))
   \<and> filter (isCall ''c9'') (fst (doStream sampleParse sampleReason
         [sse unnamedStartPayload, sse callRestPayload, sse toolsDonePayload, sse ''[DONE]'']))
       = [ToolCall ''c9'' [] ''{x:1}'']
   \<and> adjacent (ToolInputEnd ''c9'') (ToolCall ''c9'' [] ''{x:1}'') (fst (doStream sampleParse sampleReason
         [sse unnamedStartPayload, sse callRestPayload, sse toolsDonePayload, sse ''[DONE]'']))
   \<and> doStream sampleParse sampleReason
         [sse unnamedStartPayload, sse callRestPayload, sse toolsDonePayload, sse ''[DONE]'']
       = ([ToolInputDelta ''c9'' ''{x:'', ToolInputDelta ''c9'' ''1}'', ToolInputEnd ''c9'',
           ToolCall ''c9'' [] ''{x:1}'',
           Finish \<lparr> inputTokens = 0, outputTokens = 0, totalTokens = 0 \<rparr> ''tool-calls''], Closed)
   \<and> endsNormally [sse unnamedStartPayload, sse callRestFinishPayload, sse ''[DONE]'']
   \<and> flushedArguments ''c9'' (readFrames sampleParse
         [sse unnamedStartPayload, sse callRestFinishPayload, sse ''[DONE]'']) = [''{x:'']
   \<and> filter (isCall ''c9'') (fst (doStream sampleParse sampleReason
         [sse unnamedStartPayload, sse callRestFinishPayload, sse ''[DONE]'']))
       = [ToolCall ''c9'' [] ''{x:'']"
proof -
  let ?f = "fragment (Some 0) (Some ''c9'') None (Some ''{x:'')"
  let ?g = "fragment (Some 0) None None (Some ''1}'')"
  let ?reads = "[sse unnamedStartPayload, sse callRestPayload, sse toolsDonePayload, sse ''[DONE]'']"
  let ?cut = "[sse unnamedStartPayload, sse callRestFinishPayload, sse ''[DONE]'']"
  let ?frags = "streamFragments (readFrames sampleParse ?reads)"
  have m0: "indexToId initial = (\<lambda>_. None)"
    by simp
  have h1: "endsNormally ?reads"
    by code_simp
  have "delivered (indexToId initial) ?frags = [(''c9'', ?f), (''c9'', ?g)]"
    by code_simp
  then have dl: "delivered (\<lambda>_. None) ?frags = [(''c9'', ?f), (''c9'', ?g)]"
    unfolding m0 .
  have h2: "''c9'' \<in> fst ` set (delivered (\<lambda>_. None) ?frags)"
    unfolding dl by simp
  have "deliveredNames ''c9'' (indexToId initial) ?frags = []"
    by code_simp
  then have h3: "deliveredNames ''c9'' (\<lambda>_. None) ?frags = []"
    unfolding m0 .
  have h4: "fragmentsBeforeFinish (readFrames sampleParse ?reads)"
    by code_simp
  have "deliveredArguments ''c9'' (indexToId initial) ?frags = [''{x:'', ''1}'']"
    by code_simp
  then have args: "deliveredArguments ''c9'' (\<lambda>_. None) ?frags = [''{x:'', ''1}'']"
    unfolding m0 .
  have sf: "sentinelFree [''{x:'', ''1}'']"
    unfolding sentinelFree_def
  proof (intro allI impI)
    fix k :: nat
    assume "0 < k \<and> k < length [''{x:'', ''1}'']"
    then have "k = 1" by simp
    then show "concat (take k [''{x:'', ''1}'']) \<noteq> ''{}''" by simp
  qed
  have h5: "sentinelFree (deliveredArguments ''c9'' (\<lambda>_. None) ?frags)"
    unfolding args by (rule sf)
  have run: "doStream sampleParse sampleReason ?reads
       = ([ToolInputDelta ''c9'' ''{x:'', ToolInputDelta ''c9'' ''1}'', ToolInputEnd ''c9'',
           ToolCall ''c9'' [] ''{x:1}'',
           Finish \<lparr> inputTokens = 0, outputTokens = 0, totalTokens = 0 \<rparr> ''tool-calls''], Closed)"
    by code_simp
  note t = C9_unnamed_call [OF h1 h2 h3, of sampleReason]
  from t have "\<forall>e\<in>set (fst (doStream sampleParse sampleReason ?reads)). \<not> isStart ''c9'' e"
    by blast
  then have a: "list_all (\<lambda>e. \<not> isStart ''c9'' e) (fst (doStream sampleParse sampleReason ?reads))"
    by (simp only: list_all_iff)
  from t h4 h5 have "filter (isCall ''c9'') (fst (doStream sampleParse sampleReason ?reads)) =
      [ToolCall ''c9'' []
         (if deliveredArguments ''c9'' (\<lambda>_. None) ?frags = [] then ''{}''
          else concat (deliveredArguments ''c9'' (\<lambda>_. None) ?frags))]"
    by blast
  then have b: "filter (isCall ''c9'') (fst (doStream sampleParse sampleReason ?reads))
      = [ToolCall ''c9'' [] ''{x:1}'']"
    unfolding args by simp
  from t have one: "filter (isCall ''c9'') (fst (doStream sampleParse sampleReason ?reads)) =
      [ToolCall ''c9'' [] (accumulate ''{}'' (flushedArguments ''c9'' (readFrames sampleParse ?reads)))]"
    by blast
  have v: "accumulate ''{}'' (flushedArguments ''c9'' (readFrames sampleParse ?reads)) = ''{x:1}''"
    using one unfolding b by simp
  from t have c: "adjacent (ToolInputEnd ''c9'') (ToolCall ''c9'' [] ''{x:1}'')
      (fst (doStream sampleParse sampleReason ?reads))"
    unfolding v by blast
  have k1: "endsNormally ?cut"
    by code_simp
  have "delivered (indexToId initial) (streamFragments (readFrames sampleParse ?cut))
      = [(''c9'', ?f), (''c9'', ?g)]"
    by code_simp
  then have k2: "''c9'' \<in> fst ` set (delivered (\<lambda>_. None) (streamFragments (readFrames sampleParse ?cut)))"
    unfolding m0 by simp
  have "deliveredNames ''c9'' (indexToId initial) (streamFragments (readFrames sampleParse ?cut)) = []"
    by code_simp
  then have k3: "deliveredNames ''c9'' (\<lambda>_. None) (streamFragments (readFrames sampleParse ?cut)) = []"
    unfolding m0 .
  have fl: "flushedArguments ''c9'' (readFrames sampleParse ?cut) = [''{x:'']"
    by code_simp
  from C9_unnamed_call [OF k1 k2 k3, of sampleReason]
  have "filter (isCall ''c9'') (fst (doStream sampleParse sampleReason ?cut)) =
      [ToolCall ''c9'' [] (accumulate ''{}'' (flushedArguments ''c9'' (readFrames sampleParse ?cut)))]"
    by blast
  then have d: "filter (isCall ''c9'') (fst (doStream sampleParse sampleReason ?cut))
      = [ToolCall ''c9'' [] ''{x:'']"
    unfolding fl by simp
  show ?thesis
    using h1 dl h3 h4 args sf a b c run k1 fl d by blast
qed

text \<open>
  Claim C2, as stated, fails on the code: a finish signal flushes the call before the
  delta of the same frame is read (lines 423-455 come before line 457), so a fragment
  that arrives with or after the signal is missing from the \<open>tool-call\<close> event.  The
  stream is the one of the specification's own scenario: the first fragment names the
  call, the second carries only the index and shares its frame with the finish signal.
\<close>

theorem C2_counterexample:
  "streamFragments (readFrames sampleParse
       [sse callStartPayload, sse callRestFinishPayload, sse ''[DONE]''])
     = [fragment (Some 0) (Some ''c1'') (Some ''f'') (Some ''{a:''),
        fragment (Some 0) None None (Some ''1}'')]
   \<and> deliveredArguments ''c1'' (indexToId initial) (streamFragments (readFrames sampleParse
       [sse callStartPayload, sse callRestFinishPayload, sse ''[DONE]'']))
     = [''{a:'', ''1}'']
   \<and> doStream sampleParse sampleReason
       [sse callStartPayload, sse callRestFinishPayload, sse ''[DONE]'']
     = ([ToolInputStart ''c1'' ''f'', ToolInputDelta ''c1'' ''{a:'',
         ToolInputEnd ''c1'', ToolCall ''c1'' ''f'' ''{a:'',
         ToolInputDelta ''c1'' ''1}'',
         Finish \<lparr> inputTokens = 0, outputTokens = 0, totalTokens = 0 \<rparr> ''tool-calls''], Closed)
   \<and> ''{a:'' \<noteq> concat [''{a:'', ''1}'']"
  by code_simp


text \<open>
  Two more ways in which the buffer is not the concatenation: a call without argument
  fragments reports \<open>{}\<close> (claim C10), and a buffer that reads \<open>{}\<close> is taken for the
  sentinel and replaced by the next fragment.
\<close>

lemma sentinel_collision: "accumulate ''{}'' [''{}'', ''x''] = ''x''"
  by simp

text \<open>
  Claim C2, amended.  In a stream that ends normally and in which no tool-call fragment
  arrives in or after a frame that carries a finish signal, every tool-call id to which
  fragments were delivered gets exactly one \<open>tool-call\<close> event.  Its input is the
  concatenation, in arrival order, of the non-empty argument fragments delivered for the
  id when there is one, and \<open>{}\<close> when there is none, provided no proper non-empty prefix
  of these fragments concatenates to \<open>{}\<close>.
\<close>

theorem C2_input_is_concatenation:
  assumes "endsNormally reads"
    and "fragmentsBeforeFinish (readFrames parse reads)"
    and "i \<in> fst ` set (delivered (\<lambda>_. None) (streamFragments (readFrames parse reads)))"
    and "sentinelFree (deliveredArguments i (\<lambda>_. None) (streamFragments (readFrames parse reads)))"
  shows "\<exists>n. filter (isCall i) (fst (doStream parse mapReason reads)) =
           [ToolCall i n
              (if deliveredArguments i (\<lambda>_. None) (streamFragments (readFrames parse reads)) = []
               then ''{}''
               else concat (deliveredArguments i (\<lambda>_. None) (streamFragments (readFrames parse reads))))]"
proof -
  let ?fs = "readFrames parse reads"
  let ?as = "concat (map frameActions ?fs)"
  let ?es = "snd (run mapReason initial ?as) @ snd (finishStream (fst (run mapReason initial ?as)))"
  let ?args = "deliveredArguments i (\<lambda>_. None) (streamFragments ?fs)"
  have es: "fst (doStream parse mapReason reads) = ?es"
    using assms(1) by (rule doStream_events)
  obtain g where "(i, g) \<in> set (delivered (indexToId initial) (actionFragments ?as))"
    using assms(3) by (auto simp: actionFragments_frames)
  then have "i \<in> fst ` set (toolCalls (fst (run mapReason initial ?as)))"
    by (rule delivered_tracked)
  then have "occurrences (isCall i) ?es = 1"
    using final_counts(1) [OF wfSession_initial counted_initial, of i mapReason ?as] by simp
  from filter_single [OF this] obtain e where
    e: "filter (isCall i) ?es = [e]" "isCall i e" "e \<in> set ?es"
    by blast
  from isCall_cases [OF e(2)] obtain n a where c: "e = ToolCall i n a"
    by blast
  from fragmentsBeforeFinish_split [OF assms(2)] obtain pre post where
    p: "?as = pre @ post" "\<forall>x\<in>set pre. \<not> isSignal x" "actionFragments post = []"
    by blast
  have "ToolCall i n a \<in> set (snd (run mapReason initial (pre @ post)) @
           snd (finishStream (fst (run mapReason initial (pre @ post)))))"
    using e(3) unfolding c p(1) .
  from settled_input [OF p this] have "a = accumulate ''{}'' ?args" .
  then have "a = (if ?args = [] then ''{}'' else concat ?args)"
    using accumulate_sentinelFree [OF assms(4)] by simp
  then show ?thesis
    unfolding es using e(1) c by blast
qed


theorem C2_input_is_concatenation_witness:
  "endsNormally [sse callStartPayload, sse callRestPayload, sse toolsDonePayload, sse ''[DONE]'']
   \<and> fragmentsBeforeFinish (readFrames sampleParse
        [sse callStartPayload, sse callRestPayload, sse toolsDonePayload, sse ''[DONE]''])
   \<and> delivered (indexToId initial) (streamFragments (readFrames sampleParse
        [sse callStartPayload, sse callRestPayload, sse toolsDonePayload, sse ''[DONE]'']))
       = [(''c1'', fragment (Some 0) (Some ''c1'') (Some ''f'') (Some ''{a:'')),
          (''c1'', fragment (Some 0) None None (Some ''1}''))]
   \<and> deliveredArguments ''c1'' (indexToId initial) (streamFragments (readFrames sampleParse
        [sse callStartPayload, sse callRestPayload, sse toolsDonePayload, sse ''[DONE]'']))
       = [''{a:'', ''1}'']
   \<and> sentinelFree [''{a:'', ''1}'']
   \<and> (\<exists>n. filter (isCall ''c1'') (fst (doStream sampleParse sampleReason
        [sse callStartPayload, sse callRestPayload, sse toolsDonePayload, sse ''[DONE]'']))
       = [ToolCall ''c1'' n ''{a:1}''])"
proof -
  let ?reads = "[sse callStartPayload, sse callRestPayload, sse toolsDonePayload, sse ''[DONE]'']"
  let ?frags = "streamFragments (readFrames sampleParse ?reads)"
  have m0: "indexToId initial = (\<lambda>_. None)"
    by simp
  have h1: "endsNormally ?reads"
    by code_simp
  have h2: "fragmentsBeforeFinish (readFrames sampleParse ?reads)"
    by code_simp
  have dl: "delivered (indexToId initial) ?frags
       = [(''c1'', fragment (Some 0) (Some ''c1'') (Some ''f'') (Some ''{a:'')),
          (''c1'', fragment (Some 0) None None (Some ''1}''))]"
    by code_simp
  have h3: "''c1'' \<in> fst ` set (delivered (\<lambda>_. None) ?frags)"
    using dl unfolding m0 by simp
  have args: "deliveredArguments ''c1'' (indexToId initial) ?frags = [''{a:'', ''1}'']"
    by code_simp
  have sf: "sentinelFree [''{a:'', ''1}'']"
    unfolding sentinelFree_def
  proof (intro allI impI)
    fix k :: nat
    assume "0 < k \<and> k < length [''{a:'', ''1}'']"
    then have "k = 1" by simp
    then show "concat (take k [''{a:'', ''1}'']) \<noteq> ''{}''" by simp
  qed
  have h4: "sentinelFree (deliveredArguments ''c1'' (\<lambda>_. None) ?frags)"
    using sf args unfolding m0 by simp
  have args': "deliveredArguments ''c1'' (\<lambda>_. None) ?frags = [''{a:'', ''1}'']"
    using args unfolding m0 .
  from C2_input_is_concatenation [OF h1 h2 h3 h4, of sampleReason]
  have "\<exists>n. filter (isCall ''c1'') (fst (doStream sampleParse sampleReason ?reads))
       = [ToolCall ''c1'' n ''{a:1}'']"
    unfolding args' by simp
  then show ?thesis
    using h1 h2 dl args sf by blast
qed


text \<open>
  Claim C8, as stated, fails on the code: lines 497-532 never look at \<open>completed\<close>, so
  a fragment resolved to a completed call still appends to its argument buffer, and
  still sets its name when it has none.  In the first stream, call \<open>c1\<close> is completed by
  the finish signal of the second frame and its buffer grows in the third; in the
  second stream, call \<open>c9\<close> is completed without a name and gets one afterwards.
\<close>

theorem C8_counterexample:
  "map_of (toolCalls (sessionTrace sampleParse sampleReason
       [sse callStartPayload, sse toolsDonePayload, sse callRestPayload, sse ''[DONE]''] ! 2)) ''c1''
     = Some \<lparr> tc_id = ''c1'', tc_name = ''f'', tc_arguments = ''{a:'', tc_completed = True \<rparr>
   \<and> map_of (toolCalls (sessionTrace sampleParse sampleReason
       [sse callStartPayload, sse toolsDonePayload, sse callRestPayload, sse ''[DONE]''] ! 3)) ''c1''
     = Some \<lparr> tc_id = ''c1'', tc_name = ''f'', tc_arguments = ''{a:1}'', tc_completed = True \<rparr>
   \<and> map_of (toolCalls (sessionTrace sampleParse sampleReason
       [sse unnamedPayload, sse toolsDonePayload, sse lateNamePayload, sse ''[DONE]''] ! 2)) ''c9''
     = Some \<lparr> tc_id = ''c9'', tc_name = [], tc_arguments = ''{x:1}'', tc_completed = True \<rparr>
   \<and> map_of (toolCalls (sessionTrace sampleParse sampleReason
       [sse unnamedPayload, sse toolsDonePayload, sse lateNamePayload, sse ''[DONE]''] ! 3)) ''c9''
     = Some \<lparr> tc_id = ''c9'', tc_name = ''g'', tc_arguments = ''{x:1}'', tc_completed = True \<rparr>"
  by code_simp


text \<open>
  Claim C8, amended.  Along the sessions a stream goes through, the \<open>completed\<close> flag of
  a tool call never goes from true to false and goes from false to true at most once;
  in a stream that ends normally it does so exactly once for every call tracked at the
  end; and the \<open>id\<close> of a tracked call is the key it is stored under, at all times.
  Nothing is said about the name and the argument buffer of a completed call.
\<close>

theorem C8_completed_once:
  "falls i (sessionTrace parse mapReason reads) = 0
   \<and> rises i (sessionTrace parse mapReason reads) \<le> 1
   \<and> (\<forall>s\<in>set (sessionTrace parse mapReason reads).
        \<forall>tc. map_of (toolCalls s) i = Some tc \<longrightarrow> tc_id tc = i)
   \<and> (endsNormally reads \<and> i \<in> fst ` set (toolCalls (fst (pump parse mapReason initial reads))) \<longrightarrow>
        rises i (sessionTrace parse mapReason reads) = 1)"
proof (intro conjI impI ballI allI)
  let ?ss = "sessionTrace parse mapReason reads"
  have st: "steady i ?ss"
    by (rule steady_sessionTrace)
  have r: "rises i ?ss =
      (if completedIn (fst (pump parse mapReason initial reads)) i then 1 else 0)"
    using steady_rises [OF st sessionTrace_props(1)] by (simp add: sessionTrace_props)
  show "falls i ?ss = 0"
    using st by (rule steady_falls)
  show "rises i ?ss \<le> 1"
    by (simp add: r)
  show "tc_id tc = i" if "s \<in> set ?ss" "map_of (toolCalls s) i = Some tc" for s tc
    using wfSession_tracked_id [OF wf_sessionTrace [OF that(1)] that(2)] .
  show "rises i ?ss = 1"
    if "endsNormally reads \<and> i \<in> fst ` set (toolCalls (fst (pump parse mapReason initial reads)))"
  proof -
    let ?l = "fst (runFrames mapReason initial (readFrames parse reads))"
    have f: "fst (pump parse mapReason initial reads) = fst (finishStream ?l)"
      using that by (simp add: pump_session)
    have "fst ` set (toolCalls (fst (finishStream ?l))) = fst ` set (toolCalls ?l)"
      by (metis finishStream_keys list.set_map)
    then have "i \<in> fst ` set (toolCalls ?l)"
      using that unfolding f by simp
    then have "completedIn (fst (finishStream ?l)) i"
      by (simp add: completedIn_finishStream map_of_eq_None_iff)
    then show ?thesis
      by (simp add: r f)
  qed
qed

theorem C8_completed_once_witness:
  "endsNormally [sse callStartPayload, sse toolsDonePayload, sse callRestPayload, sse ''[DONE]'']
   \<and> map fst (toolCalls (fst (pump sampleParse sampleReason initial
         [sse callStartPayload, sse toolsDonePayload, sse callRestPayload, sse ''[DONE]''])))
       = [''c1'']
   \<and> map (\<lambda>s. completedIn s ''c1'') (sessionTrace sampleParse sampleReason
         [sse callStartPayload, sse toolsDonePayload, sse callRestPayload, sse ''[DONE]''])
       = [False, False, True, True, True]
   \<and> rises ''c1'' (sessionTrace sampleParse sampleReason
         [sse callStartPayload, sse toolsDonePayload, sse callRestPayload, sse ''[DONE]'']) = 1
   \<and> falls ''c1'' (sessionTrace sampleParse sampleReason
         [sse callStartPayload, sse toolsDonePayload, sse callRestPayload, sse ''[DONE]'']) = 0"
proof -
  let ?reads = "[sse callStartPayload, sse toolsDonePayload, sse callRestPayload, sse ''[DONE]'']"
  have h1: "endsNormally ?reads"
    by code_simp
  have ks: "map fst (toolCalls (fst (pump sampleParse sampleReason initial ?reads))) = [''c1'']"
    by code_simp
  have h2: "''c1'' \<in> fst ` set (toolCalls (fst (pump sampleParse sampleReason initial ?reads)))"
    using ks by (metis list.set_intros(1) list.set_map)
  have fl: "map (\<lambda>s. completedIn s ''c1'') (sessionTrace sampleParse sampleReason ?reads)
       = [False, False, True, True, True]"
    by code_simp
  note t = C8_completed_once [of "''c1''" sampleParse sampleReason ?reads]
  show ?thesis
    using h1 ks fl t h2 by blast
qed


text \<open>
  Claim C1, as stated, fails on the code.  A finish signal flushes the open call and the
  open text span, but later fragments and later text are still emitted: in the first
  stream a \<open>tool-input-delta\<close> follows the \<open>tool-call\<close> of its id and a \<open>text-delta\<close>
  follows \<open>text-end\<close>.  And \<open>tool-input-start\<close> waits for the name (line 509): in the
  second stream the arguments come first and \<open>tool-input-delta\<close> precedes
  \<open>tool-input-start\<close>.
\<close>

theorem C1_counterexample:
  "doStream sampleParse sampleReason
     [sse callStartPayload, sse helloPayload, sse toolsDonePayload,
      sse callRestPayload, sse worldPayload, sse ''[DONE]'']
     = ([ToolInputStart ''c1'' ''f'', ToolInputDelta ''c1'' ''{a:'',
         TextStart ''text-0'', TextDelta ''text-0'' ''Hello'',
         ToolInputEnd ''c1'', ToolCall ''c1'' ''f'' ''{a:'', TextEnd ''text-0'',
         ToolInputDelta ''c1'' ''1}'', TextDelta ''text-0'' ''World'',
         Finish \<lparr> inputTokens = 0, outputTokens = 0, totalTokens = 0 \<rparr> ''tool-calls''], Closed)
   \<and> \<not> precedes (isDelta ''c1'') (isCall ''c1'') (fst (doStream sampleParse sampleReason
         [sse callStartPayload, sse helloPayload, sse toolsDonePayload,
          sse callRestPayload, sse worldPayload, sse ''[DONE]'']))
   \<and> \<not> precedes (isTextDelta ''text-0'') (isTextEnd ''text-0'') (fst (doStream sampleParse sampleReason
         [sse callStartPayload, sse helloPayload, sse toolsDonePayload,
          sse callRestPayload, sse worldPayload, sse ''[DONE]'']))
   \<and> doStream sampleParse sampleReason
     [sse unnamedPayload, sse lateNamePayload, sse toolsDonePayload, sse ''[DONE]'']
     = ([ToolInputDelta ''c9'' ''{x:1}'', ToolInputStart ''c9'' ''g'',
         ToolInputEnd ''c9'', ToolCall ''c9'' ''g'' ''{x:1}'',
         Finish \<lparr> inputTokens = 0, outputTokens = 0, totalTokens = 0 \<rparr> ''tool-calls''], Closed)
   \<and> \<not> precedes (isStart ''c9'') (isDelta ''c9'') (fst (doStream sampleParse sampleReason
         [sse unnamedPayload, sse lateNamePayload, sse toolsDonePayload, sse ''[DONE]'']))"
proof -
  let ?A = "[sse callStartPayload, sse helloPayload, sse toolsDonePayload,
      sse callRestPayload, sse worldPayload, sse ''[DONE]'']"
  let ?B = "[sse unnamedPayload, sse lateNamePayload, sse toolsDonePayload, sse ''[DONE]'']"
  let ?EA = "[ToolInputStart ''c1'' ''f'', ToolInputDelta ''c1'' ''{a:'',
         TextStart ''text-0'', TextDelta ''text-0'' ''Hello'',
         ToolInputEnd ''c1'', ToolCall ''c1'' ''f'' ''{a:'', TextEnd ''text-0'',
         ToolInputDelta ''c1'' ''1}'', TextDelta ''text-0'' ''World'',
         Finish \<lparr> inputTokens = 0, outputTokens = 0, totalTokens = 0 \<rparr> ''tool-calls'']"
  let ?EB = "[ToolInputDelta ''c9'' ''{x:1}'', ToolInputStart ''c9'' ''g'',
         ToolInputEnd ''c9'', ToolCall ''c9'' ''g'' ''{x:1}'',
         Finish \<lparr> inputTokens = 0, outputTokens = 0, totalTokens = 0 \<rparr> ''tool-calls'']"
  have a: "doStream sampleParse sampleReason ?A = (?EA, Closed)"
    by code_simp
  have b: "doStream sampleParse sampleReason ?B = (?EB, Closed)"
    by code_simp
  have a1: "\<not> precedes (isDelta ''c1'') (isCall ''c1'') ?EA"
    by (rule not_precedesI [of 7 _ 5]) simp_all
  have a2: "\<not> precedes (isTextDelta ''text-0'') (isTextEnd ''text-0'') ?EA"
    by (rule not_precedesI [of 8 _ 6]) simp_all
  have b1: "\<not> precedes (isStart ''c9'') (isDelta ''c9'') ?EB"
    by (rule not_precedesI [of 1 _ 0]) simp_all
  show ?thesis
    using a1 a2 b1 by (simp only: a b fst_conv simp_thms)
qed


text \<open>
  Claim C1, amended.  In every stream that ends normally: exactly one \<open>finish\<close> event is
  emitted, as the last event; \<open>text-start\<close> stands before every \<open>text-delta\<close> and
  \<open>text-end\<close> of its id, and exists when they do; the \<open>tool-input-end\<close> of an id stands
  before its \<open>tool-call\<close>, and exists when it does.  If from the first frame with a
  finish signal on no frame carries text or tool-call fragments, every \<open>text-delta\<close>
  stands before \<open>text-end\<close>, and every \<open>tool-input-delta\<close> and \<open>tool-input-start\<close> of an
  id before its \<open>tool-input-end\<close> and \<open>tool-call\<close>.  If the first fragment delivered for
  each id carries a name, \<open>tool-input-start\<close> stands before every other tool-call event
  of its id, and exists when they do.
\<close>

theorem C1_event_order:
  assumes "endsNormally reads"
  shows "(\<exists>es u r. fst (doStream parse mapReason reads) = es @ [Finish u r]
            \<and> (\<forall>e\<in>set es. \<not> isFinish e))
    \<and> leads (isTextStart t) (isTextPart t) (fst (doStream parse mapReason reads))
    \<and> leads (isEnd i) (isCall i) (fst (doStream parse mapReason reads))
    \<and> (quietAfterFinish (readFrames parse reads) \<longrightarrow>
         precedes (isTextDelta t) (isTextEnd t) (fst (doStream parse mapReason reads))
         \<and> precedes (isDelta i) (isCompletion i) (fst (doStream parse mapReason reads))
         \<and> precedes (isStart i) (isCompletion i) (fst (doStream parse mapReason reads)))
    \<and> (namedFirst [] (delivered (\<lambda>_. None) (streamFragments (readFrames parse reads))) \<longrightarrow>
         leads (isStart i) (isToolPart i) (fst (doStream parse mapReason reads)))"
proof (intro conjI impI)
  let ?fs = "readFrames parse reads"
  let ?as = "concat (map frameActions ?fs)"
  let ?r = "run mapReason initial ?as"
  let ?es = "snd ?r @ snd (finishStream (fst ?r))"
  have es: "fst (doStream parse mapReason reads) = ?es"
    using assms by (rule doStream_events)
  have w: "wfSession (fst ?r)"
    using wfSession_run [OF wfSession_initial] .
  show "\<exists>es u r. fst (doStream parse mapReason reads) = es @ [Finish u r]
            \<and> (\<forall>e\<in>set es. \<not> isFinish e)"
  proof -
    have "?es = (snd ?r @ snd (flush (fst ?r))) @
        [Finish (usage (fst (flush (fst ?r)))) (actualFinishReason (fst (flush (fst ?r))))]"
      by (simp add: finishStream_def Let_def)
    moreover have "\<forall>e\<in>set (snd ?r @ snd (flush (fst ?r))). \<not> isFinish e"
      by (auto dest: run_no_finish flush_events)
    ultimately show ?thesis
      unfolding es by blast
  qed
  show "leads (isTextStart t) (isTextPart t) (fst (doStream parse mapReason reads))"
  proof -
    have "textOrder t (fst ?r) ([] @ snd ?r)"
      using textOrder_initial by (rule textOrder_run)
    then have "textOrder t (fst ?r) (snd ?r)" by simp
    then have "textOrder t (fst (finishStream (fst ?r))) ?es"
      by (rule textOrder_finishStream)
    then show ?thesis
      unfolding es by (rule textOrder_leads)
  qed
  show "leads (isEnd i) (isCall i) (fst (doStream parse mapReason reads))"
    unfolding es by (rule paired_leads [OF paired_stream endCall_stream])
  show "leads (isStart i) (isToolPart i) (fst (doStream parse mapReason reads))"
    if "namedFirst [] (delivered (\<lambda>_. None) (streamFragments ?fs))"
  proof -
    have n: "namedFirst [] (delivered (indexToId initial) (actionFragments ?as))"
      using that by (simp add: actionFragments_frames)
    have k: "i \<in> set [] \<longleftrightarrow> i \<in> fst ` set (toolCalls initial)"
      by (simp add: initial_def)
    have "startFirst i (fst ?r) ([] @ snd ?r)"
      using wfSession_initial startFirst_initial n k by (rule startFirst_run)
    then have "startFirst i (fst ?r) (snd ?r)" by simp
    with w have "startFirst i (fst (finishStream (fst ?r))) ?es"
      by (rule startFirst_finishStream)
    then show ?thesis
      unfolding es by (rule startFirst_leads)
  qed
  assume q: "quietAfterFinish ?fs"
  from quiet_phases [OF q, of mapReason] obtain xs ys where
    p: "?es = xs @ ys" "\<forall>e\<in>set xs. \<forall>k. \<not> isCompletion k e \<and> \<not> isTextEnd k e"
       "\<forall>e\<in>set ys. closing e"
    by blast
  have op: "\<not> isStart i e \<and> \<not> isDelta i e \<and> \<not> isTextDelta t e" if "e \<in> set ys" for e
    using p(3) that closing_not_opening [of e i t] by blast
  show "precedes (isTextDelta t) (isTextEnd t) (fst (doStream parse mapReason reads))"
    unfolding es p(1) using p(2) op by (intro precedes_phases) blast+
  show "precedes (isDelta i) (isCompletion i) (fst (doStream parse mapReason reads))"
    unfolding es p(1) using p(2) op by (intro precedes_phases) blast+
  show "precedes (isStart i) (isCompletion i) (fst (doStream parse mapReason reads))"
    unfolding es p(1) using p(2) op by (intro precedes_phases) blast+
qed


theorem C1_event_order_witness:
  "endsNormally [sse helloPayload, sse callStartPayload, sse callRestPayload,
                 sse worldPayload, sse toolsDonePayload, sse ''[DONE]'']
   \<and> quietAfterFinish (readFrames sampleParse
        [sse helloPayload, sse callStartPayload, sse callRestPayload,
         sse worldPayload, sse toolsDonePayload, sse ''[DONE]''])
   \<and> namedFirst [] (delivered (\<lambda>_. None) (streamFragments (readFrames sampleParse
        [sse helloPayload, sse callStartPayload, sse callRestPayload,
         sse worldPayload, sse toolsDonePayload, sse ''[DONE]''])))
   \<and> doStream sampleParse sampleReason
        [sse helloPayload, sse callStartPayload, sse callRestPayload,
         sse worldPayload, sse toolsDonePayload, sse ''[DONE]'']
       = ([TextStart ''text-0'', TextDelta ''text-0'' ''Hello'',
           ToolInputStart ''c1'' ''f'', ToolInputDelta ''c1'' ''{a:'', ToolInputDelta ''c1'' ''1}'',
           TextDelta ''text-0'' ''World'',
           ToolInputEnd ''c1'', ToolCall ''c1'' ''f'' ''{a:1}'', TextEnd ''text-0'',
           Finish \<lparr> inputTokens = 0, outputTokens = 0, totalTokens = 0 \<rparr> ''tool-calls''], Closed)
   \<and> leads (isTextStart ''text-0'') (isTextPart ''text-0'') (fst (doStream sampleParse sampleReason
        [sse helloPayload, sse callStartPayload, sse callRestPayload,
         sse worldPayload, sse toolsDonePayload, sse ''[DONE]'']))
   \<and> leads (isEnd ''c1'') (isCall ''c1'') (fst (doStream sampleParse sampleReason
        [sse helloPayload, sse callStartPayload, sse callRestPayload,
         sse worldPayload, sse toolsDonePayload, sse ''[DONE]'']))
   \<and> precedes (isTextDelta ''text-0'') (isTextEnd ''text-0'') (fst (doStream sampleParse sampleReason
        [sse helloPayload, sse callStartPayload, sse callRestPayload,
         sse worldPayload, sse toolsDonePayload, sse ''[DONE]'']))
   \<and> precedes (isDelta ''c1'') (isCompletion ''c1'') (fst (doStream sampleParse sampleReason
        [sse helloPayload, sse callStartPayload, sse callRestPayload,
         sse worldPayload, sse toolsDonePayload, sse ''[DONE]'']))
   \<and> leads (isStart ''c1'') (isToolPart ''c1'') (fst (doStream sampleParse sampleReason
        [sse helloPayload, sse callStartPayload, sse callRestPayload,
         sse worldPayload, sse toolsDonePayload, sse ''[DONE]'']))"
proof -
  let ?reads = "[sse helloPayload, sse callStartPayload, sse callRestPayload,
                 sse worldPayload, sse toolsDonePayload, sse ''[DONE]'']"
  have h1: "endsNormally ?reads"
    by code_simp
  have h2: "quietAfterFinish (readFrames sampleParse ?reads)"
    by code_simp
  have dl: "delivered (\<lambda>_. None) (streamFragments (readFrames sampleParse ?reads))
      = [(''c1'', fragment (Some 0) (Some ''c1'') (Some ''f'') (Some ''{a:'')),
         (''c1'', fragment (Some 0) None None (Some ''1}''))]"
    by code_simp
  have h3: "namedFirst [] (delivered (\<lambda>_. None) (streamFragments (readFrames sampleParse ?reads)))"
    unfolding dl by (simp add: fragName_def fragment_def)
  have run: "doStream sampleParse sampleReason ?reads
       = ([TextStart ''text-0'', TextDelta ''text-0'' ''Hello'',
           ToolInputStart ''c1'' ''f'', ToolInputDelta ''c1'' ''{a:'', ToolInputDelta ''c1'' ''1}'',
           TextDelta ''text-0'' ''World'',
           ToolInputEnd ''c1'', ToolCall ''c1'' ''f'' ''{a:1}'', TextEnd ''text-0'',
           Finish \<lparr> inputTokens = 0, outputTokens = 0, totalTokens = 0 \<rparr> ''tool-calls''], Closed)"
    by code_simp
  note t = C1_event_order [OF h1, of sampleParse sampleReason "''text-0''" "''c1''"]
  show ?thesis
    using h1 h2 h3 run t by blast
qed


end
